theory Spec2Isabelle
  imports Complex_Main "HOL-Library.Multiset" "HOL-Library.While_Combinator"
    "HOL-Library.List_Lexorder" "HOL-Library.Char_ord"
begin

section \<open>Errors\<close>

text \<open>
  Every \<^verbatim>\<open>throw\<close> of the source, and every JavaScript \<^verbatim>\<open>TypeError\<close> raised by
  reading a property of \<^verbatim>\<open>undefined\<close> or calling a non-function, is a value of this type.
  \<open>NotANumber\<close> is not thrown by the source: it marks the one place where the source computes
  the number \<^verbatim>\<open>NaN\<close>, which the reals that model its numbers do not have.
\<close>

datatype error =
    OutOfOrderWordInsertion
  | DuplicateIndex
  | MalformedFieldRef
  | TypeError
  | NotANumber
  | RangeError
  | QueryParseError

section \<open>Sparse vectors (Vector.ts)\<close>

text \<open>
  A vector is the flat array \<^verbatim>\<open>[index, value, index, value, ...]\<close>. JavaScript numbers are
  modelled as reals; elements that are strings (a deserialised index) are outside the model.
\<close>

text \<open>
  The binary search of \<^verbatim>\<open>positionForIndex\<close>. \<^verbatim>\<open>end\<close> starts as
  \<^verbatim>\<open>this.elements.length / 2\<close>, which is not a whole number when the array has odd length;
  \<^verbatim>\<open>start\<close> and \<^verbatim>\<open>pivotPoint\<close> are always whole. The source keeps
  \<^verbatim>\<open>sliceLength\<close>, \<^verbatim>\<open>pivotPoint\<close> and \<^verbatim>\<open>pivotIndex\<close> in variables that it recomputes
  from \<^verbatim>\<open>start\<close> and \<^verbatim>\<open>end\<close> at the end of every iteration (and before the first one);
  the recursion recomputes them at the head of the iteration. The \<^verbatim>\<open>break\<close> on
  \<^verbatim>\<open>pivotIndex === index\<close> leaves the loop with the current pivot. On an array of odd
  length the loop need not end (\<^verbatim>\<open>[1, 5, 9]\<close> and index 2), so the result is an option:
  \<open>None\<close> means that the loop runs forever.
\<close>

partial_function (option) positionForIndex_loop ::
  "real list \<Rightarrow> real \<Rightarrow> nat \<Rightarrow> real \<Rightarrow> (nat \<times> real) option" where
  "positionForIndex_loop elements index start endp =
     (let sliceLength = endp - real start;
          pivotPoint = start + nat \<lfloor>sliceLength / 2\<rfloor>;
          pivotIndex = elements ! (pivotPoint * 2)
      in if sliceLength > 1 \<and> pivotIndex \<noteq> index
         then positionForIndex_loop elements index
                (if pivotIndex < index then pivotPoint else start)
                (if pivotIndex > index then real pivotPoint else endp)
         else Some (pivotPoint, pivotIndex))"

definition positionForIndex :: "real list \<Rightarrow> real \<Rightarrow> nat option" where
  "positionForIndex elements index =
     (if length elements = 0 then Some 0
      else case positionForIndex_loop elements index 0 (real (length elements) / 2) of
        None \<Rightarrow> None
      | Some (pivotPoint, pivotIndex) \<Rightarrow>
          Some (if pivotIndex = index then pivotPoint * 2
                else if pivotIndex > index then pivotPoint * 2
                else if pivotIndex < index then (pivotPoint + 1) * 2
                else 0))"

text \<open>
  \<^verbatim>\<open>upsert(insertIdx, val, fn?)\<close> on the element array; \<open>None\<close> when \<^verbatim>\<open>positionForIndex\<close>
  does not return. The merge function is optional in the source and may throw (\<^verbatim>\<open>insert\<close>
  passes one that always throws). Its first argument is \<^verbatim>\<open>this.elements[position + 1]\<close>, which
  is \<^verbatim>\<open>undefined\<close> (here \<open>None\<close>) when the index found is the last element of an array of odd
  length; the assignment then appends the merged value. Reading \<^verbatim>\<open>this.elements[position]\<close>
  past the end gives \<^verbatim>\<open>undefined\<close>, which is not equal to a number, and
  \<^verbatim>\<open>splice(position, 0, insertIdx, val)\<close> inserts the pair at \<open>position\<close>.
\<close>

definition upsert ::
  "real list \<Rightarrow> real \<Rightarrow> real \<Rightarrow> (real option \<Rightarrow> real \<Rightarrow> error + real) option
     \<Rightarrow> (error + real list) option" where
  "upsert elements insertIdx val fn =
     (case positionForIndex elements insertIdx of
        None \<Rightarrow> None
      | Some position \<Rightarrow>
          Some (if position < length elements \<and> elements ! position = insertIdx then
                  (case fn of
                     None \<Rightarrow> Inr elements
                   | Some f \<Rightarrow>
                       if position + 1 < length elements then
                         (case f (Some (elements ! (position + 1))) val of
                            Inl e \<Rightarrow> Inl e
                          | Inr merged \<Rightarrow> Inr (elements[position + 1 := merged]))
                       else
                         (case f None val of
                            Inl e \<Rightarrow> Inl e
                          | Inr merged \<Rightarrow> Inr (elements @ [merged])))
                else Inr (take position elements @ [insertIdx, val] @ drop position elements)))"

text \<open>
  The merge function that \<^verbatim>\<open>LunrIndex.query\<close> passes:
  \<^verbatim>\<open>function (a, b) { return 'string' === typeof a ? parseFloat(a) : a + b; }\<close>.
  The stored value \<open>a\<close> is a number in this model, so the branch for strings is never taken and
  the result is \<^verbatim>\<open>a + b\<close>. On \<^verbatim>\<open>undefined\<close> the source computes
  \<^verbatim>\<open>undefined + b\<close>, which is \<^verbatim>\<open>NaN\<close>.
\<close>

definition query_merge :: "real option \<Rightarrow> real \<Rightarrow> error + real" where
  "query_merge a b = (case a of Some x \<Rightarrow> Inr (x + b) | None \<Rightarrow> Inl NotANumber)"

text \<open>The merge function that \<^verbatim>\<open>insert\<close> passes: it throws.\<close>

definition insert_merge :: "real option \<Rightarrow> real \<Rightarrow> error + real" where
  "insert_merge a b = Inl DuplicateIndex"

definition vector_insert :: "real list \<Rightarrow> real \<Rightarrow> real \<Rightarrow> (error + real list) option" where
  "vector_insert elements insertIdx val = upsert elements insertIdx val (Some insert_merge)"

text \<open>
  The call by which \<^verbatim>\<open>LunrIndex.query\<close> populates the query vector of a field:
  \<^verbatim>\<open>queryVectors[field].upsert(termIndex, clause.boost || 1, function (a, b) {...})\<close>.
  \<^verbatim>\<open>clause.boost || 1\<close> is 1 when the boost is 0 (or absent, or \<^verbatim>\<open>NaN\<close>, which a real
  cannot be), and the boost otherwise.
\<close>

definition boost_or_1 :: "real \<Rightarrow> real" where
  "boost_or_1 boost = (if boost = 0 then 1 else boost)"

definition query_upsert :: "real list \<Rightarrow> real \<Rightarrow> real \<Rightarrow> (error + real list) option" where
  "query_upsert queryVector termIndex boost =
     upsert queryVector termIndex (boost_or_1 boost) (Some query_merge)"

text \<open>The (index, value) pairs of a flat element array, and its well-formedness:
  even length and strictly increasing indices.\<close>

fun pairs :: "real list \<Rightarrow> (real \<times> real) list" where
  "pairs (i # v # es) = (i, v) # pairs es"
| "pairs es = []"

definition vector_sorted :: "real list \<Rightarrow> bool" where
  "vector_sorted elements \<longleftrightarrow> even (length elements) \<and> sorted_wrt (<) (map fst (pairs elements))"

section \<open>Token sets (TokenSet.ts)\<close>

text \<open>
  A \<^verbatim>\<open>TokenSet\<close> object has a \<^verbatim>\<open>final\<close> flag, an \<^verbatim>\<open>edges\<close> object from one-character labels
  to token sets, a cached key \<^verbatim>\<open>_str\<close> and an \<^verbatim>\<open>id\<close> taken from the static counter
  \<^verbatim>\<open>TokenSet._nextId\<close>. Token sets share nodes (after minimisation) and refer to themselves (the
  wildcard loop of \<^verbatim>\<open>fromString\<close>), and they are mutated in place, so they live in an explicit
  store. Identifiers are unique, so the store is indexed by them: a reference to a token set is its
  \<^verbatim>\<open>id\<close>. The \<^verbatim>\<open>edges\<close> object is an association list in property insertion order;
  characters are Isabelle's 8-bit \<open>char\<close>, ordered by code as JavaScript orders UTF-16 code units.
\<close>

record TokenSet =
  final :: bool
  edges :: "(char \<times> nat) list"
  str_cache :: string

record store =
  nodes :: "nat \<Rightarrow> TokenSet"
  nextId :: nat

text \<open>The state of a fresh process: \<^verbatim>\<open>TokenSet._nextId = 1\<close> and no token set allocated.\<close>

definition empty_TokenSet :: TokenSet where
  "empty_TokenSet = \<lparr>final = False, edges = [], str_cache = []\<rparr>"

definition initial_store :: store where
  "initial_store = \<lparr>nodes = (\<lambda>_. empty_TokenSet), nextId = 1\<rparr>"

text \<open>\<^verbatim>\<open>new TokenSet()\<close>: the constructor takes the next identifier and increments the counter.\<close>

definition new_TokenSet :: "store \<Rightarrow> store \<times> nat" where
  "new_TokenSet s =
     (s\<lparr>nodes := (nodes s)(nextId s := empty_TokenSet), nextId := nextId s + 1\<rparr>, nextId s)"

text \<open>\<^verbatim>\<open>node.final = b\<close>, \<^verbatim>\<open>node.edges[c] = target\<close>, \<^verbatim>\<open>node._str = key\<close> and
  \<^verbatim>\<open>node.edges[c]\<close>. Assigning to an existing property keeps its place in the
  enumeration order; a new property goes last.\<close>

definition set_final :: "store \<Rightarrow> nat \<Rightarrow> bool \<Rightarrow> store" where
  "set_final s n b = s\<lparr>nodes := (nodes s)(n := (nodes s n)\<lparr>final := b\<rparr>)\<rparr>"

fun update_edge :: "char \<Rightarrow> nat \<Rightarrow> (char \<times> nat) list \<Rightarrow> (char \<times> nat) list" where
  "update_edge c t [] = [(c, t)]"
| "update_edge c t (p # ps) = (if fst p = c then (c, t) # ps else p # update_edge c t ps)"

definition set_edge :: "store \<Rightarrow> nat \<Rightarrow> char \<Rightarrow> nat \<Rightarrow> store" where
  "set_edge s n c t = s\<lparr>nodes := (nodes s)(n := (nodes s n)\<lparr>edges := update_edge c t (edges (nodes s n))\<rparr>)\<rparr>"

definition set_str :: "store \<Rightarrow> nat \<Rightarrow> string \<Rightarrow> store" where
  "set_str s n key = s\<lparr>nodes := (nodes s)(n := (nodes s n)\<lparr>str_cache := key\<rparr>)\<rparr>"

definition edge_target :: "store \<Rightarrow> nat \<Rightarrow> char \<Rightarrow> nat option" where
  "edge_target s n c = map_of (edges (nodes s n)) c"

text \<open>
  \<^verbatim>\<open>Object.keys(node.edges)\<close>: JavaScript enumerates the keys that are array indices (here the
  one-digit labels) first, in ascending numeric order, and then the other keys in insertion order.
\<close>

definition is_index_key :: "char \<Rightarrow> bool" where
  "is_index_key c \<longleftrightarrow> c \<in> set ''0123456789''"

definition object_keys :: "(char \<times> nat) list \<Rightarrow> char list" where
  "object_keys es =
     sort (filter is_index_key (map fst es)) @ filter (\<lambda>c. \<not> is_index_key c) (map fst es)"

subsection \<open>\<^verbatim>\<open>TokenSet.fromString\<close>\<close>

text \<open>
  The loop over the characters of the pattern; \<^verbatim>\<open>final\<close> is \<^verbatim>\<open>i == len - 1\<close>, that is, no
  character follows. A \<^verbatim>\<open>*\<close> adds a self-referencing edge and sets the finality of the current
  node; any other character adds a fresh node.
\<close>

fun fromString_loop :: "store \<Rightarrow> nat \<Rightarrow> string \<Rightarrow> store" where
  "fromString_loop s node [] = s"
| "fromString_loop s node (c # cs) =
     (let final = (cs = []) in
      if c = CHR ''*'' then
        fromString_loop (set_final (set_edge s node c node) node final) node cs
      else
        (case new_TokenSet s of (s1, next) \<Rightarrow>
           fromString_loop (set_edge (set_final s1 next final) node c next) next cs))"

definition fromString :: "store \<Rightarrow> string \<Rightarrow> store \<times> nat" where
  "fromString s str = (case new_TokenSet s of (s1, rootNode) \<Rightarrow> (fromString_loop s1 rootNode str, rootNode))"

subsection \<open>\<^verbatim>\<open>TokenSet.toArray\<close>\<close>

text \<open>
  The loop pops a frame, records its prefix if the node is final, and pushes one frame per edge.
  The stack is a list whose head is the top. The loop need not end (a token set with a loop), so
  it is a \<open>while_option\<close>: \<open>None\<close> means that \<^verbatim>\<open>toArray\<close> does not return. A key that
  \<^verbatim>\<open>Object.keys\<close> has just listed is present, so the \<open>None\<close> branch of the edge lookup is
  never taken.
\<close>

definition toArray_step :: "store \<Rightarrow> string list \<times> (string \<times> nat) list \<Rightarrow> string list \<times> (string \<times> nat) list" where
  "toArray_step s st =
     (case st of
        (words, []) \<Rightarrow> st
      | (words, (prefix, node) # stack) \<Rightarrow>
          (if final (nodes s node) then words @ [prefix] else words,
           foldl (\<lambda>stk edge. case edge_target s node edge of
                                Some t \<Rightarrow> (prefix @ [edge], t) # stk
                              | None \<Rightarrow> stk)
                 stack (object_keys (edges (nodes s node)))))"

definition toArray :: "store \<Rightarrow> nat \<Rightarrow> string list option" where
  "toArray s this =
     map_option fst (while_option (\<lambda>(words, stack). stack \<noteq> []) (toArray_step s) ([], [([], this)]))"

subsection \<open>\<^verbatim>\<open>TokenSet.intersect\<close>\<close>

text \<open>
  A frame is \<^verbatim>\<open>{qNode, output, node}\<close>. For each pair of a key of \<^verbatim>\<open>frame.qNode.edges\<close> and a
  key of \<^verbatim>\<open>frame.node.edges\<close> (both listed when the frame is popped), the body of the inner loop:
\<close>

type_synonym iframe = "nat \<times> nat \<times> nat"

definition intersect_pair :: "iframe \<Rightarrow> char \<Rightarrow> char \<Rightarrow> store \<times> iframe list \<Rightarrow> store \<times> iframe list" where
  "intersect_pair frame qEdge nEdge st =
     (case frame of (frame_qNode, frame_output, frame_node) \<Rightarrow>
      case st of (s, stack) \<Rightarrow>
        if nEdge = qEdge \<or> qEdge = CHR ''*'' then
          (case (edge_target s frame_node nEdge, edge_target s frame_qNode qEdge) of
             (Some node, Some qNode) \<Rightarrow>
               (let fin = (final (nodes s node) \<and> final (nodes s qNode)) in
                case edge_target s frame_output nEdge of
                  Some next \<Rightarrow>
                    (set_final s next (final (nodes s next) \<or> fin), (qNode, next, node) # stack)
                | None \<Rightarrow>
                    (case new_TokenSet s of (s1, next) \<Rightarrow>
                       (set_edge (set_final s1 next fin) frame_output nEdge next,
                        (qNode, next, node) # stack)))
           | _ \<Rightarrow> st)
        else st)"

definition intersect_step :: "store \<times> iframe list \<Rightarrow> store \<times> iframe list" where
  "intersect_step st =
     (case st of
        (s, []) \<Rightarrow> st
      | (s, frame # stack) \<Rightarrow>
          (case frame of (frame_qNode, frame_output, frame_node) \<Rightarrow>
             let qEdges = object_keys (edges (nodes s frame_qNode));
                 nEdges = object_keys (edges (nodes s frame_node))
             in foldl (\<lambda>st qEdge. foldl (\<lambda>st nEdge. intersect_pair frame qEdge nEdge st) st nEdges)
                      (s, stack) qEdges))"

text \<open>\<open>intersect s a b\<close> is \<^verbatim>\<open>a.intersect(b)\<close> in store \<open>s\<close>; \<open>None\<close>: it does not return.\<close>

definition intersect :: "store \<Rightarrow> nat \<Rightarrow> nat \<Rightarrow> (store \<times> nat) option" where
  "intersect s a b =
     (case new_TokenSet s of (s0, output) \<Rightarrow>
        map_option (\<lambda>(s', stack). (s', output))
          (while_option (\<lambda>(s, stack). stack \<noteq> []) intersect_step (s0, [(b, output, a)])))"

subsection \<open>\<^verbatim>\<open>TokenSet.toString\<close>\<close>

text \<open>The decimal rendering of an identifier, as string concatenation with a number gives it.\<close>

definition digit_char :: "nat \<Rightarrow> char" where
  "digit_char d = ''0123456789'' ! d"

function string_of_nat :: "nat \<Rightarrow> string" where
  "string_of_nat n =
     (if n < 10 then [digit_char n] else string_of_nat (n div 10) @ [digit_char (n mod 10)])"
  by pat_completeness auto
termination
  by (relation "measure id") auto

declare string_of_nat.simps [simp del]

text \<open>
  The key of a node: the cached \<^verbatim>\<open>_str\<close> if it is non-empty, else the finality bit followed by
  label and child identifier for each label of \<^verbatim>\<open>Object.keys(this.edges).sort()\<close>, with nothing
  between them.
\<close>

definition toString :: "store \<Rightarrow> nat \<Rightarrow> string" where
  "toString s this =
     (if str_cache (nodes s this) \<noteq> [] then str_cache (nodes s this)
      else foldl (\<lambda>str label. case edge_target s this label of
                                 Some node \<Rightarrow> str @ [label] @ string_of_nat node
                               | None \<Rightarrow> str)
                 (if final (nodes s this) then ''1'' else ''0'')
                 (sort (object_keys (edges (nodes s this)))))"

section \<open>The token-set builder (TokenSetBuilder.ts)\<close>

text \<open>
  \<^verbatim>\<open>uncheckedNodes\<close> is kept in the order of the source's array (\<^verbatim>\<open>push\<close> appends,
  \<^verbatim>\<open>pop\<close> removes the last element); an entry is (parent, char, child).
  \<^verbatim>\<open>minimizedNodes\<close> is a plain object used as a map from keys to token sets; every key starts
  with \<^verbatim>\<open>0\<close> or \<^verbatim>\<open>1\<close>, so none is a member of \<^verbatim>\<open>Object.prototype\<close>.
\<close>

record TokenSetBuilder =
  previousWord :: string
  builder_root :: nat
  uncheckedNodes :: "(nat \<times> char \<times> nat) list"
  minimizedNodes :: "string \<rightharpoonup> nat"

definition new_TokenSetBuilder :: "store \<Rightarrow> store \<times> TokenSetBuilder" where
  "new_TokenSetBuilder s =
     (case new_TokenSet s of (s1, r) \<Rightarrow>
        (s1, \<lparr>previousWord = [], builder_root = r, uncheckedNodes = [], minimizedNodes = Map.empty\<rparr>))"

text \<open>\<^verbatim>\<open>minimize(downTo)\<close>: the loop runs while \<^verbatim>\<open>uncheckedNodes.length > downTo\<close>, on the last
  entry, which it pops.\<close>

function minimize :: "nat \<Rightarrow> store \<Rightarrow> TokenSetBuilder \<Rightarrow> store \<times> TokenSetBuilder" where
  "minimize downTo s b =
     (if downTo < length (uncheckedNodes b) then
        (case last (uncheckedNodes b) of (parent, char, child) \<Rightarrow>
           let childKey = toString s child in
           (case minimizedNodes b childKey of
              Some m \<Rightarrow>
                minimize downTo (set_edge s parent char m)
                  (b\<lparr>uncheckedNodes := butlast (uncheckedNodes b)\<rparr>)
            | None \<Rightarrow>
                minimize downTo (set_str s child childKey)
                  (b\<lparr>minimizedNodes := (minimizedNodes b)(childKey \<mapsto> child),
                     uncheckedNodes := butlast (uncheckedNodes b)\<rparr>)))
      else (s, b))"
  by pat_completeness auto
termination
  by (relation "measure (\<lambda>(downTo, s, b). length (uncheckedNodes b))") auto

declare minimize.simps [simp del]

text \<open>The length of the common prefix of the word and the previous word.\<close>

fun commonPrefix :: "string \<Rightarrow> string \<Rightarrow> nat" where
  "commonPrefix (x # xs) (y # ys) = (if x \<noteq> y then 0 else 1 + commonPrefix xs ys)"
| "commonPrefix xs ys = 0"

text \<open>The loop of \<^verbatim>\<open>insert\<close> that appends one fresh node per remaining character.\<close>

fun insert_loop :: "string \<Rightarrow> store \<Rightarrow> TokenSetBuilder \<Rightarrow> nat \<Rightarrow> store \<times> TokenSetBuilder \<times> nat" where
  "insert_loop [] s b node = (s, b, node)"
| "insert_loop (char # cs) s b node =
     (case new_TokenSet s of (s1, nextNode) \<Rightarrow>
        insert_loop cs (set_edge s1 node char nextNode)
          (b\<lparr>uncheckedNodes := uncheckedNodes b @ [(node, char, nextNode)]\<rparr>) nextNode)"

text \<open>\<^verbatim>\<open>insert(word)\<close>. Strings compare as JavaScript compares them: lexicographically by
  character code, a proper prefix being smaller.\<close>

definition builder_insert :: "string \<Rightarrow> store \<Rightarrow> TokenSetBuilder \<Rightarrow> error + store \<times> TokenSetBuilder" where
  "builder_insert word s b =
     (if word < previousWord b then Inl OutOfOrderWordInsertion
      else
        let cp = commonPrefix word (previousWord b) in
        case minimize cp s b of (s1, b1) \<Rightarrow>
        let node = (if length (uncheckedNodes b1) = 0 then builder_root b1
                    else snd (snd (last (uncheckedNodes b1)))) in
        case insert_loop (drop cp word) s1 b1 node of (s2, b2, node') \<Rightarrow>
          Inr (set_final s2 node' True, b2\<lparr>previousWord := word\<rparr>))"

definition finish :: "store \<Rightarrow> TokenSetBuilder \<Rightarrow> store \<times> TokenSetBuilder" where
  "finish s b = minimize 0 s b"

fun insert_all :: "string list \<Rightarrow> store \<Rightarrow> TokenSetBuilder \<Rightarrow> error + store \<times> TokenSetBuilder" where
  "insert_all [] s b = Inr (s, b)"
| "insert_all (word # arr) s b =
     (case builder_insert word s b of
        Inl e \<Rightarrow> Inl e
      | Inr (s1, b1) \<Rightarrow> insert_all arr s1 b1)"

text \<open>\<^verbatim>\<open>TokenSet.fromArray(arr)\<close>: the store after the call and the root, or the error thrown.\<close>

definition fromArray :: "store \<Rightarrow> string list \<Rightarrow> error + store \<times> nat" where
  "fromArray s arr =
     (case new_TokenSetBuilder s of (s0, b0) \<Rightarrow>
        case insert_all arr s0 b0 of
          Inl e \<Rightarrow> Inl e
        | Inr (s1, b1) \<Rightarrow> (case finish s1 b1 of (s2, b2) \<Rightarrow> Inr (s2, builder_root b2)))"

subsection \<open>\<^verbatim>\<open>TokenSet.fromFuzzyString\<close>\<close>

text \<open>
  \<^verbatim>\<open>char in node.edges ? node.edges[char] : (node.edges[char] = new TokenSet())\<close>, the pattern
  that every edit of the loop uses.
\<close>

definition edge_or_new :: "store \<Rightarrow> nat \<Rightarrow> char \<Rightarrow> store \<times> nat" where
  "edge_or_new s node c =
     (case edge_target s node c of
        Some t \<Rightarrow> (s, t)
      | None \<Rightarrow> (case new_TokenSet s of (s1, t) \<Rightarrow> (set_edge s1 node c t, t)))"

text \<open>
  A frame is \<^verbatim>\<open>{node, editsRemaining, str}\<close>; the stack's head is its top. The edit budget is a
  JavaScript number: a negative one never reaches 0, and the loop does not end.
\<close>

type_synonym fframe = "nat \<times> int \<times> string"

definition fuzzy_no_edit :: "fframe \<Rightarrow> store \<times> fframe list \<Rightarrow> store \<times> fframe list" where
  "fuzzy_no_edit frame st =
     (case frame of (node, editsRemaining, str) \<Rightarrow> case st of (s, stack) \<Rightarrow>
        if length str > 0 then
          (case edge_or_new s node (hd str) of (s1, noEditNode) \<Rightarrow>
             (if length str = 1 then set_final s1 noEditNode True else s1,
              (noEditNode, editsRemaining, tl str) # stack))
        else st)"

definition fuzzy_insertion :: "fframe \<Rightarrow> store \<times> fframe list \<Rightarrow> store \<times> fframe list" where
  "fuzzy_insertion frame st =
     (case frame of (node, editsRemaining, str) \<Rightarrow> case st of (s, stack) \<Rightarrow>
        case edge_or_new s node (CHR ''*'') of (s1, insertionNode) \<Rightarrow>
          (if length str = 0 then set_final s1 insertionNode True else s1,
           (insertionNode, editsRemaining - 1, str) # stack))"

definition fuzzy_deletion :: "fframe \<Rightarrow> store \<times> fframe list \<Rightarrow> store \<times> fframe list" where
  "fuzzy_deletion frame st =
     (case frame of (node, editsRemaining, str) \<Rightarrow> case st of (s, stack) \<Rightarrow>
        let stack1 = (if length str > 1 then (node, editsRemaining - 1, tl str) # stack else stack)
        in (if length str = 1 then set_final s node True else s, stack1))"

definition fuzzy_substitution :: "fframe \<Rightarrow> store \<times> fframe list \<Rightarrow> store \<times> fframe list" where
  "fuzzy_substitution frame st =
     (case frame of (node, editsRemaining, str) \<Rightarrow> case st of (s, stack) \<Rightarrow>
        if length str \<ge> 1 then
          (case edge_or_new s node (CHR ''*'') of (s1, substitutionNode) \<Rightarrow>
             (if length str = 1 then set_final s1 substitutionNode True else s1,
              (substitutionNode, editsRemaining - 1, tl str) # stack))
        else st)"

definition fuzzy_transposition :: "fframe \<Rightarrow> store \<times> fframe list \<Rightarrow> store \<times> fframe list" where
  "fuzzy_transposition frame st =
     (case frame of (node, editsRemaining, str) \<Rightarrow> case st of (s, stack) \<Rightarrow>
        if length str > 1 then
          (let charA = str ! 0; charB = str ! 1 in
           case edge_or_new s node charB of (s1, transposeNode) \<Rightarrow>
             (if length str = 1 then set_final s1 transposeNode True else s1,
              (transposeNode, editsRemaining - 1, charA # drop 2 str) # stack))
        else st)"

definition fuzzy_step :: "store \<times> fframe list \<Rightarrow> store \<times> fframe list" where
  "fuzzy_step st =
     (case st of
        (s, []) \<Rightarrow> st
      | (s, frame # stack) \<Rightarrow>
          (let st1 = fuzzy_no_edit frame (s, stack) in
           if fst (snd frame) = 0 then st1
           else fuzzy_transposition frame
                  (fuzzy_substitution frame (fuzzy_deletion frame (fuzzy_insertion frame st1)))))"

text \<open>\<^verbatim>\<open>TokenSet.fromFuzzyString(str, editDistance)\<close>; \<open>None\<close>: it does not return.\<close>

definition fromFuzzyString :: "store \<Rightarrow> string \<Rightarrow> int \<Rightarrow> (store \<times> nat) option" where
  "fromFuzzyString s str editDistance =
     (case new_TokenSet s of (s0, rootNode) \<Rightarrow>
        map_option (\<lambda>(s', stack). (s', rootNode))
          (while_option (\<lambda>(s, stack). stack \<noteq> []) fuzzy_step (s0, [(rootNode, editDistance, str)])))"

section \<open>The words of a token set\<close>

text \<open>
  \<open>run s n w\<close> follows from node \<open>n\<close> the edges labelled with the characters of \<open>w\<close>, every label
  read literally (also \<^verbatim>\<open>*\<close>); \<open>accepts\<close> asks that the node reached is final.
\<close>

fun run :: "store \<Rightarrow> nat \<Rightarrow> string \<Rightarrow> nat option" where
  "run s n [] = Some n"
| "run s n (c # w) = (case edge_target s n c of None \<Rightarrow> None | Some t \<Rightarrow> run s t w)"

definition accepts :: "store \<Rightarrow> nat \<Rightarrow> string \<Rightarrow> bool" where
  "accepts s n w = (case run s n w of None \<Rightarrow> False | Some t \<Rightarrow> final (nodes s t))"

text \<open>
  What it means for a pattern to match a word, in the words of the specification: each \<^verbatim>\<open>*\<close>
  of the pattern matches any run of characters, the empty run included, and every other character
  of the pattern matches only itself.
\<close>

function pattern_matches :: "string \<Rightarrow> string \<Rightarrow> bool" where
  "pattern_matches [] w = (w = [])"
| "pattern_matches (c # p) [] = (c = CHR ''*'' \<and> pattern_matches p [])"
| "pattern_matches (c # p) (d # w) =
     (if c = CHR ''*'' then pattern_matches p (d # w) \<or> pattern_matches (c # p) w
      else c = d \<and> pattern_matches p w)"
  by pat_completeness auto
termination
  by (relation "measure (\<lambda>(p, w). length p + length w)") auto

section \<open>Plain JavaScript objects used as maps\<close>

text \<open>
  Where the source writes \<^verbatim>\<open>{}\<close> for a map keyed by strings, the object inherits the members
  of \<^verbatim>\<open>Object.prototype\<close>: reading \<^verbatim>\<open>obj[key]\<close> for a key that is not an own property
  yields the inherited member when the key names one, and \<^verbatim>\<open>undefined\<close> otherwise. An object
  is the association list of its own properties, in insertion order (the keys stored in the objects
  whose keys are enumerated below contain a \<^verbatim>\<open>/\<close>, so none is an array index, which
  JavaScript would enumerate first).
\<close>

definition object_prototype_members :: "string list" where
  "object_prototype_members =
     [''constructor'', ''__defineGetter__'', ''__defineSetter__'', ''hasOwnProperty'',
      ''__lookupGetter__'', ''__lookupSetter__'', ''isPrototypeOf'', ''propertyIsEnumerable'',
      ''toString'', ''valueOf'', ''__proto__'', ''toLocaleString'']"

datatype 'v property = Undefined | Own 'v | Inherited

definition get_property :: "(string \<times> 'v) list \<Rightarrow> string \<Rightarrow> 'v property" where
  "get_property obj key =
     (case map_of obj key of
        Some v \<Rightarrow> Own v
      | None \<Rightarrow> if key \<in> set object_prototype_members then Inherited else Undefined)"

text \<open>\<^verbatim>\<open>!!obj[key]\<close> for an object whose own values are all truthy, and \<^verbatim>\<open>key in obj\<close>:
  an inherited member is an object or a function, so both hold of it.\<close>

definition has_property :: "(string \<times> 'v) list \<Rightarrow> string \<Rightarrow> bool" where
  "has_property obj key \<longleftrightarrow> get_property obj key \<noteq> Undefined"

section \<open>Sets of document references (LunrSet.ts)\<close>

text \<open>
  A \<^verbatim>\<open>LunrSet\<close> is one of the two sentinels or an object with a plain \<^verbatim>\<open>elements\<close> object,
  whose own keys are the members given to the constructor, and the \<^verbatim>\<open>length\<close> of the array
  given to the constructor. (The order of the keys cannot be observed through the methods.)
\<close>

datatype LunrSet =
    completeLunrSet
  | emptyLunrSet
  | LunrSet (set_elements: "(string \<times> bool) list") (set_length: nat)

fun add_elements :: "string list \<Rightarrow> (string \<times> bool) list \<Rightarrow> (string \<times> bool) list" where
  "add_elements [] obj = obj"
| "add_elements (element # elements) obj =
     add_elements elements
       (if element = ''__proto__'' then obj
        else if element \<in> fst ` set obj then obj else obj @ [(element, True)])"

text \<open>\<^verbatim>\<open>new LunrSet(elements)\<close>. Assigning \<^verbatim>\<open>true\<close> to the key \<^verbatim>\<open>__proto__\<close> of a plain
  object has no effect.\<close>

definition new_LunrSet :: "string list \<Rightarrow> LunrSet" where
  "new_LunrSet elements = LunrSet (add_elements elements []) (length elements)"

fun contains :: "LunrSet \<Rightarrow> string \<Rightarrow> bool" where
  "contains completeLunrSet object = True"
| "contains emptyLunrSet object = False"
| "contains (LunrSet elements len) object = has_property elements object"

fun set_intersect :: "LunrSet \<Rightarrow> LunrSet \<Rightarrow> LunrSet" where
  "set_intersect completeLunrSet other = other"
| "set_intersect emptyLunrSet other = emptyLunrSet"
| "set_intersect (LunrSet elements len) completeLunrSet = LunrSet elements len"
| "set_intersect (LunrSet elements len) emptyLunrSet = emptyLunrSet"
| "set_intersect (LunrSet elements len) (LunrSet elements' len') =
     (if len < len'
      then new_LunrSet (filter (\<lambda>element. has_property elements' element) (map fst elements))
      else new_LunrSet (filter (\<lambda>element. has_property elements element) (map fst elements')))"

fun set_union :: "LunrSet \<Rightarrow> LunrSet \<Rightarrow> LunrSet" where
  "set_union completeLunrSet other = completeLunrSet"
| "set_union emptyLunrSet other = other"
| "set_union (LunrSet elements len) completeLunrSet = completeLunrSet"
| "set_union (LunrSet elements len) emptyLunrSet = LunrSet elements len"
| "set_union (LunrSet elements len) (LunrSet elements' len') =
     new_LunrSet (map fst elements @ map fst elements')"

section \<open>Field references (FieldRef.ts)\<close>

fun indexOf :: "string \<Rightarrow> char \<Rightarrow> nat option" where
  "indexOf [] c = None"
| "indexOf (x # xs) c = (if x = c then Some 0 else map_option Suc (indexOf xs c))"

text \<open>\<^verbatim>\<open>FieldRef.fromString(s)\<close>: the pair (docRef, fieldName), split at the first \<^verbatim>\<open>/\<close>.\<close>

definition FieldRef_fromString :: "string \<Rightarrow> error + string \<times> string" where
  "FieldRef_fromString s =
     (case indexOf s (CHR ''/'') of
        None \<Rightarrow> Inl MalformedFieldRef
      | Some n \<Rightarrow> Inr (drop (n + 1) s, take n s))"

definition FieldRef_toString :: "string \<times> string \<Rightarrow> string" where
  "FieldRef_toString fieldRef = snd fieldRef @ ''/'' @ fst fieldRef"

section \<open>Similarity of sparse vectors (Vector.ts)\<close>

text \<open>\<^verbatim>\<open>magnitude()\<close>: the square root of the sum of the squares of the values, the elements at
  the odd positions. (The cache \<^verbatim>\<open>_magnitude\<close>, which \<^verbatim>\<open>upsert\<close> resets, is not modelled.)\<close>

fun sumOfSquares :: "real list \<Rightarrow> real" where
  "sumOfSquares (i # v # es) = v * v + sumOfSquares es"
| "sumOfSquares es = 0"

definition magnitude :: "real list \<Rightarrow> real" where
  "magnitude elements = sqrt (sumOfSquares elements)"

text \<open>
  \<^verbatim>\<open>dot(otherVector)\<close>: the loop over both arrays; \<open>None\<close> stands for \<^verbatim>\<open>NaN\<close>, the product
  with an \<^verbatim>\<open>undefined\<close> value read past the end of an array of odd length.
\<close>

function dot_loop :: "real list \<Rightarrow> real list \<Rightarrow> nat \<Rightarrow> nat \<Rightarrow> real option \<Rightarrow> real option" where
  "dot_loop a b i j dotProduct =
     (if i < length a \<and> j < length b then
        (if a ! i < b ! j then dot_loop a b (i + 2) j dotProduct
         else if a ! i > b ! j then dot_loop a b i (j + 2) dotProduct
         else dot_loop a b (i + 2) (j + 2)
                (if i + 1 < length a \<and> j + 1 < length b
                 then map_option (\<lambda>d. d + a ! (i + 1) * b ! (j + 1)) dotProduct
                 else None))
      else dotProduct)"
  by pat_completeness auto
termination
  by (relation "measure (\<lambda>(a, b, i, j, d). (length a - i) + (length b - j))") auto

declare dot_loop.simps [simp del]

definition dot :: "real list \<Rightarrow> real list \<Rightarrow> real option" where
  "dot a b = dot_loop a b 0 0 (Some 0)"

text \<open>\<^verbatim>\<open>similarity(otherVector)\<close> is \<^verbatim>\<open>this.dot(otherVector) / this.magnitude() || 0\<close>: the
  quotient, or 0 when the quotient is \<^verbatim>\<open>NaN\<close> (a zero magnitude makes the dot product zero
  too) or 0.\<close>

definition similarity :: "real list \<Rightarrow> real list \<Rightarrow> real" where
  "similarity this otherVector =
     (case dot this otherVector of
        None \<Rightarrow> 0
      | Some d \<Rightarrow> if magnitude this = 0 then 0 else d / magnitude this)"

section \<open>Match data (MatchData.ts)\<close>

text \<open>
  The \<^verbatim>\<open>metadata\<close> of a \<^verbatim>\<open>MatchData\<close>: term, then field, then metadata key, to the list of
  recorded values. \<^verbatim>\<open>combine\<close> is modelled on own properties only: terms, fields and metadata
  keys that name members of \<^verbatim>\<open>Object.prototype\<close> are outside this model of it.
\<close>

type_synonym 'a metadata = "(string \<times> (string \<times> (string \<times> 'a list) list) list) list"

fun update_property :: "string \<Rightarrow> 'v \<Rightarrow> (string \<times> 'v) list \<Rightarrow> (string \<times> 'v) list" where
  "update_property k v [] = [(k, v)]"
| "update_property k v (p # ps) = (if fst p = k then (k, v) # ps else p # update_property k v ps)"

definition own_or :: "'v \<Rightarrow> (string \<times> 'v) list \<Rightarrow> string \<Rightarrow> 'v" where
  "own_or d obj key = (case map_of obj key of Some v \<Rightarrow> v | None \<Rightarrow> d)"

definition combine_keys :: "(string \<times> 'a list) list \<Rightarrow> (string \<times> 'a list) list \<Rightarrow> (string \<times> 'a list) list" where
  "combine_keys this other =
     foldl (\<lambda>m (key, vals).
              case map_of m key of
                None \<Rightarrow> update_property key vals m
              | Some old \<Rightarrow> update_property key (old @ vals) m)
           this other"

definition combine_fields ::
  "(string \<times> (string \<times> 'a list) list) list \<Rightarrow> (string \<times> (string \<times> 'a list) list) list
     \<Rightarrow> (string \<times> (string \<times> 'a list) list) list" where
  "combine_fields this other =
     foldl (\<lambda>m (field, keys). update_property field (combine_keys (own_or [] m field) keys) m)
           this other"

definition combine :: "'a metadata \<Rightarrow> 'a metadata \<Rightarrow> 'a metadata" where
  "combine this otherMatchData =
     foldl (\<lambda>m (term, fields). update_property term (combine_fields (own_or [] m term) fields) m)
           this otherMatchData"

section \<open>The end of \<^verbatim>\<open>LunrIndex.query\<close>: from matching fields to results\<close>

datatype presence = OPTIONAL | REQUIRED | PROHIBITED

text \<open>\<^verbatim>\<open>Query.isNegated()\<close>, on the presences of the clauses of the query.\<close>

fun isNegated :: "presence list \<Rightarrow> bool" where
  "isNegated [] = True"
| "isNegated (p # clauses) = (if p \<noteq> PROHIBITED then False else isNegated clauses)"

record 'a DocMatch =
  ref :: string
  score :: real
  matchData :: "'a metadata"

text \<open>
  The state of the last loop of \<^verbatim>\<open>query\<close>: the \<^verbatim>\<open>results\<close> array and the plain object
  \<^verbatim>\<open>matches\<close>, which maps a document reference to its result; a result is shared between
  the two, so \<^verbatim>\<open>matches\<close> holds the position of the result in \<^verbatim>\<open>results\<close>.
\<close>

type_synonym 'a collect_state = "'a DocMatch list \<times> (string \<times> nat) list"

text \<open>
  The body of the loop for one \<^verbatim>\<open>fieldRefStr\<close>. Reading \<^verbatim>\<open>matches[docRef]\<close> for a document
  reference that names a member of \<^verbatim>\<open>Object.prototype\<close> gives that member, which is not
  \<^verbatim>\<open>undefined\<close>: the source then reads \<^verbatim>\<open>docMatch.matchData.combine\<close> on it, where
  \<^verbatim>\<open>docMatch.matchData\<close> is \<^verbatim>\<open>undefined\<close>, a \<^verbatim>\<open>TypeError\<close>. A missing query vector or
  field vector is a \<^verbatim>\<open>TypeError\<close> too.
\<close>

definition collect_field ::
  "(string \<times> real list) list \<Rightarrow> (string \<times> real list) list \<Rightarrow> (string \<times> 'a metadata) list
     \<Rightarrow> LunrSet \<Rightarrow> LunrSet \<Rightarrow> string \<Rightarrow> 'a collect_state \<Rightarrow> error + 'a collect_state" where
  "collect_field fieldVectors queryVectors matchingFields allRequiredMatches allProhibitedMatches
       fieldRefStr st =
     (case FieldRef_fromString fieldRefStr of
        Inl e \<Rightarrow> Inl e
      | Inr (docRef, fieldName) \<Rightarrow>
          if \<not> contains allRequiredMatches docRef then Inr st
          else if contains allProhibitedMatches docRef then Inr st
          else
            (case (get_property fieldVectors fieldRefStr, get_property queryVectors fieldName) of
               (Own fieldVector, Own queryVector) \<Rightarrow>
                 (let fieldScore = similarity queryVector fieldVector;
                      fieldMatch = own_or [] matchingFields fieldRefStr
                  in case st of (results, matches) \<Rightarrow>
                    (case get_property matches docRef of
                       Own k \<Rightarrow>
                         Inr (results[k := (results ! k)
                                \<lparr>score := score (results ! k) + fieldScore,
                                 matchData := combine (matchData (results ! k)) fieldMatch\<rparr>],
                              matches)
                     | Inherited \<Rightarrow> Inl TypeError
                     | Undefined \<Rightarrow>
                         Inr (results @ [\<lparr>ref = docRef, score = fieldScore, matchData = fieldMatch\<rparr>],
                              update_property docRef (length results) matches)))
             | _ \<Rightarrow> Inl TypeError))"

fun collect_fields ::
  "(string \<times> real list) list \<Rightarrow> (string \<times> real list) list \<Rightarrow> (string \<times> 'a metadata) list
     \<Rightarrow> LunrSet \<Rightarrow> LunrSet \<Rightarrow> string list \<Rightarrow> 'a collect_state \<Rightarrow> error + 'a collect_state" where
  "collect_fields fv qv mf req pro [] st = Inr st"
| "collect_fields fv qv mf req pro (fieldRefStr # refs) st =
     (case collect_field fv qv mf req pro fieldRefStr st of
        Inl e \<Rightarrow> Inl e
      | Inr st' \<Rightarrow> collect_fields fv qv mf req pro refs st')"

text \<open>
  Lines 414 to 481 of \<^verbatim>\<open>LunrIndex.query\<close>, as a function of what the earlier part of the
  method has computed: the index's \<^verbatim>\<open>fieldVectors\<close>, the \<^verbatim>\<open>queryVectors\<close>, the
  \<^verbatim>\<open>matchingFields\<close>, the two combined sets, and whether the query is negated. A negated
  query takes every field reference of the index, with an empty \<^verbatim>\<open>MatchData\<close> for each. The
  results are sorted by descending score; the sort of JavaScript is stable.
\<close>

definition query_results ::
  "(string \<times> real list) list \<Rightarrow> (string \<times> real list) list \<Rightarrow> (string \<times> 'a metadata) list
     \<Rightarrow> LunrSet \<Rightarrow> LunrSet \<Rightarrow> bool \<Rightarrow> error + 'a DocMatch list" where
  "query_results fieldVectors queryVectors matchingFields allRequiredMatches allProhibitedMatches negated =
     (let matchingFieldRefs = (if negated then map fst fieldVectors else map fst matchingFields);
          matchingFields' = (if negated then foldl (\<lambda>m r. update_property r [] m) matchingFields
                                                   (map fst fieldVectors)
                             else matchingFields)
      in case collect_fields fieldVectors queryVectors matchingFields' allRequiredMatches
                allProhibitedMatches matchingFieldRefs ([], []) of
           Inl e \<Rightarrow> Inl e
         | Inr (results, matches) \<Rightarrow> Inr (sort_key (\<lambda>r. - score r) results))"

section \<open>The tokenizer and the pipeline (tokenizer.ts, Pipeline.ts)\<close>

text \<open>
  A token is its string with the metadata that the tokenizer records: the position (start and
  length of the slice) and the index of the token (the metadata that the caller passes, which the
  tokenizer copies into every token, is left out). The tokenizer is modelled on the values that a
  document field holds here: \<^verbatim>\<open>undefined\<close> or \<^verbatim>\<open>null\<close> (\<open>None\<close>) and strings; arrays and other
  objects are outside the model.
\<close>

record Token =
  token_str :: string
  token_position :: "nat \<times> nat"
  token_index :: nat

text \<open>\<^verbatim>\<open>char.match(tokenizer.separator)\<close> for the default separator \<^verbatim>\<open>/[\s\-]+/\<close>, on the
  8-bit characters of this model: the white space of JavaScript and the hyphen.\<close>

definition is_separator :: "char \<Rightarrow> bool" where
  "is_separator c \<longleftrightarrow>
     c = CHR ''-'' \<or> c = CHR '' '' \<or> of_char c \<in> {9, 10, 11, 12, 13, 160 :: nat}"

text \<open>\<^verbatim>\<open>toLowerCase\<close> on 8-bit characters: the capital letters of ASCII and of Latin-1.\<close>

definition char_toLowerCase :: "char \<Rightarrow> char" where
  "char_toLowerCase c =
     (let n = of_char c :: nat in
      if (65 \<le> n \<and> n \<le> 90) \<or> (192 \<le> n \<and> n \<le> 222 \<and> n \<noteq> 215) then char_of (n + 32) else c)"

text \<open>
  The loop of the tokenizer over \<^verbatim>\<open>sliceEnd\<close>, from 0 to the length of the string inclusive;
  \<open>rest\<close> is the string from \<^verbatim>\<open>sliceEnd\<close> on, \<open>slice\<close> the characters from
  \<^verbatim>\<open>sliceStart\<close> up to \<^verbatim>\<open>sliceEnd\<close>.
\<close>

fun tokenizer_loop :: "string \<Rightarrow> nat \<Rightarrow> nat \<Rightarrow> string \<Rightarrow> Token list \<Rightarrow> Token list" where
  "tokenizer_loop [] sliceEnd sliceStart slice tokens =
     (if sliceEnd - sliceStart > 0
      then tokens @ [\<lparr>token_str = slice, token_position = (sliceStart, sliceEnd - sliceStart), token_index = length tokens\<rparr>]
      else tokens)"
| "tokenizer_loop (char # rest) sliceEnd sliceStart slice tokens =
     (if is_separator char then
        tokenizer_loop rest (sliceEnd + 1) (sliceEnd + 1) []
          (if sliceEnd - sliceStart > 0
           then tokens @ [\<lparr>token_str = slice, token_position = (sliceStart, sliceEnd - sliceStart), token_index = length tokens\<rparr>]
           else tokens)
      else tokenizer_loop rest (sliceEnd + 1) sliceStart (slice @ [char]) tokens)"

definition tokenizer :: "string option \<Rightarrow> Token list" where
  "tokenizer obj =
     (case obj of
        None \<Rightarrow> []
      | Some s \<Rightarrow> tokenizer_loop (map char_toLowerCase s) 0 0 [] [])"

text \<open>
  \<^verbatim>\<open>Pipeline.run(tokens)\<close>. A pipeline function is given the token, its index in the batch and
  the batch, and its result is modelled as the list of tokens that \<^verbatim>\<open>run\<close> keeps of it: none
  for \<^verbatim>\<open>null\<close>, \<^verbatim>\<open>undefined\<close> or \<^verbatim>\<open>''\<close>, the elements of an array, or the one token.
\<close>

type_synonym PipelineFunction = "Token \<Rightarrow> nat \<Rightarrow> Token list \<Rightarrow> Token list"

definition run_function :: "PipelineFunction \<Rightarrow> Token list \<Rightarrow> Token list" where
  "run_function fn tokens = concat (map (\<lambda>j. fn (tokens ! j) j tokens) [0 ..< length tokens])"

definition pipeline_run :: "PipelineFunction list \<Rightarrow> Token list \<Rightarrow> Token list" where
  "pipeline_run stack tokens = foldl (\<lambda>tokens fn. run_function fn tokens) tokens stack"

section \<open>The builder: field lengths and their averages (Builder.ts)\<close>

text \<open>
  A document is read through \<^verbatim>\<open>doc[name]\<close> only: it is the function from property names to
  the value read, \<open>None\<close> for \<^verbatim>\<open>undefined\<close> or \<^verbatim>\<open>null\<close>. The part of the builder that field
  lengths depend on: the name of the reference field, the fields (an object without prototype,
  from the field name to the optional extractor), the field lengths (a plain object keyed by
  \<^verbatim>\<open>fieldName/docRef\<close>), the pipeline and the document count.
\<close>

type_synonym document = "string \<Rightarrow> string option"

record Builder =
  builder_ref :: string
  builder_fields :: "(string \<times> (document \<Rightarrow> string option) option) list"
  fieldLengths :: "(string \<times> real) list"
  pipeline :: "PipelineFunction list"
  documentCount :: nat

text \<open>\<^verbatim>\<open>new Builder()\<close>, and \<^verbatim>\<open>field(fieldName, attributes)\<close> (of the attributes, the boost
  does not bear on field lengths and is left out).\<close>

definition new_Builder :: Builder where
  "new_Builder = \<lparr>builder_ref = ''id'', builder_fields = [], fieldLengths = [], pipeline = [],
                   documentCount = 0\<rparr>"

definition field :: "Builder \<Rightarrow> string \<Rightarrow> (document \<Rightarrow> string option) option \<Rightarrow> error + Builder" where
  "field b fieldName extractor =
     (if CHR ''/'' \<in> set fieldName then Inl RangeError
      else Inr (b\<lparr>builder_fields := update_property fieldName extractor (builder_fields b)\<rparr>))"

text \<open>The string that \<^verbatim>\<open>fieldName + '/' + docRef\<close> makes of the value of the reference field.\<close>

definition docRef_string :: "string option \<Rightarrow> string" where
  "docRef_string v = (case v of None \<Rightarrow> ''undefined'' | Some r \<Rightarrow> r)"

text \<open>
  The body of the loop of \<^verbatim>\<open>add\<close> over the fields, up to the recording of the field length
  (the term frequencies and the inverted index, which the rest of the body fills, and the
  attributes kept in \<^verbatim>\<open>_documents\<close> do not bear on the field lengths). The fields are visited
  in the order of their registration; each iteration writes the one key of its own field.
\<close>

definition field_terms :: "Builder \<Rightarrow> document \<Rightarrow> string \<times> (document \<Rightarrow> string option) option \<Rightarrow> Token list" where
  "field_terms b doc fieldEntry =
     (case fieldEntry of (fieldName, extractor) \<Rightarrow>
        let fieldValue = (case extractor of Some e \<Rightarrow> e doc | None \<Rightarrow> doc fieldName);
            tokens = tokenizer fieldValue
        in pipeline_run (pipeline b) tokens)"

definition add_field :: "document \<Rightarrow> Builder \<Rightarrow> string \<times> (document \<Rightarrow> string option) option \<Rightarrow> Builder" where
  "add_field doc b fieldEntry =
     (case fieldEntry of (fieldName, extractor) \<Rightarrow>
        let terms = field_terms b doc fieldEntry;
            fieldRef = FieldRef_toString (docRef_string (doc (builder_ref b)), fieldName);
            lengths0 = update_property fieldRef 0 (fieldLengths b)
        in b\<lparr>fieldLengths := update_property fieldRef (0 + real (length terms)) lengths0\<rparr>)"

definition add :: "Builder \<Rightarrow> document \<Rightarrow> Builder" where
  "add b doc =
     foldl (add_field doc) (b\<lparr>documentCount := documentCount b + 1\<rparr>) (builder_fields b)"

text \<open>
  The values that \<^verbatim>\<open>calculateAverageFieldLengths\<close> keeps in its two plain objects: numbers,
  \<^verbatim>\<open>NaN\<close>, the infinities of a division by zero, and text, which is what \<^verbatim>\<open>+=\<close> makes of
  an inherited member of \<^verbatim>\<open>Object.prototype\<close> and a number (the text is never a numeral).
\<close>

datatype jsvalue = Number real | NaN | Infinity | MinusInfinity | Text

definition truthy :: "jsvalue property \<Rightarrow> bool" where
  "truthy p = (case p of
                 Undefined \<Rightarrow> False
               | Inherited \<Rightarrow> True
               | Own v \<Rightarrow> (case v of Number r \<Rightarrow> r \<noteq> 0 | NaN \<Rightarrow> False | _ \<Rightarrow> True))"

text \<open>\<^verbatim>\<open>obj[key] || (obj[key] = 0)\<close> and \<^verbatim>\<open>obj[key] += n\<close>.\<close>

definition or_zero :: "(string \<times> jsvalue) list \<Rightarrow> string \<Rightarrow> (string \<times> jsvalue) list" where
  "or_zero obj key = (if truthy (get_property obj key) then obj else update_property key (Number 0) obj)"

definition plus_assign :: "(string \<times> jsvalue) list \<Rightarrow> string \<Rightarrow> real \<Rightarrow> (string \<times> jsvalue) list" where
  "plus_assign obj key n =
     update_property key
       (case get_property obj key of
          Own (Number r) \<Rightarrow> Number (r + n)
        | Own v \<Rightarrow> v
        | Inherited \<Rightarrow> Text
        | Undefined \<Rightarrow> NaN)
       obj"

text \<open>\<^verbatim>\<open>a / b\<close> on what the two objects hold.\<close>

definition divide_values :: "jsvalue property \<Rightarrow> jsvalue property \<Rightarrow> jsvalue" where
  "divide_values a b =
     (case (a, b) of
        (Own (Number x), Own (Number y)) \<Rightarrow>
          if y \<noteq> 0 then Number (x / y)
          else if x = 0 then NaN else if x > 0 then Infinity else MinusInfinity
      | _ \<Rightarrow> NaN)"

text \<open>
  The first loop of \<^verbatim>\<open>calculateAverageFieldLengths\<close>, over the keys of \<^verbatim>\<open>fieldLengths\<close>, on
  the pair (\<^verbatim>\<open>accumulator\<close>, \<^verbatim>\<open>documentsWithField\<close>), and the second loop, over the fields.
  The result is the object that the method stores in \<^verbatim>\<open>averageFieldLength\<close>; \<^verbatim>\<open>build()\<close>
  calls the method first and does not change that object afterwards. In the model the key
  \<^verbatim>\<open>__proto__\<close> is stored like any other, where JavaScript would not store it; no other key
  depends on it.
\<close>

definition accumulate_field ::
  "(string \<times> real) list \<Rightarrow> (string \<times> jsvalue) list \<times> (string \<times> jsvalue) list \<Rightarrow> string
     \<Rightarrow> error + (string \<times> jsvalue) list \<times> (string \<times> jsvalue) list" where
  "accumulate_field lengths st fieldRefStr =
     (case st of (accumulator, documentsWithField) \<Rightarrow>
      case FieldRef_fromString fieldRefStr of
        Inl e \<Rightarrow> Inl e
      | Inr (docRef, fieldName) \<Rightarrow>
          Inr (plus_assign (or_zero accumulator fieldName) fieldName
                 (own_or 0 lengths (FieldRef_toString (docRef, fieldName))),
               plus_assign (or_zero documentsWithField fieldName) fieldName 1))"

fun accumulate_fields ::
  "(string \<times> real) list \<Rightarrow> string list \<Rightarrow> (string \<times> jsvalue) list \<times> (string \<times> jsvalue) list
     \<Rightarrow> error + (string \<times> jsvalue) list \<times> (string \<times> jsvalue) list" where
  "accumulate_fields lengths [] st = Inr st"
| "accumulate_fields lengths (fieldRefStr # refs) st =
     (case accumulate_field lengths st fieldRefStr of
        Inl e \<Rightarrow> Inl e
      | Inr st' \<Rightarrow> accumulate_fields lengths refs st')"

definition calculateAverageFieldLengths :: "Builder \<Rightarrow> error + (string \<times> jsvalue) list" where
  "calculateAverageFieldLengths b =
     (case accumulate_fields (fieldLengths b) (map fst (fieldLengths b)) ([], []) of
        Inl e \<Rightarrow> Inl e
      | Inr (accumulator, documentsWithField) \<Rightarrow>
          Inr (foldl (\<lambda>acc fieldName.
                        update_property fieldName
                          (divide_values (get_property acc fieldName)
                                         (get_property documentsWithField fieldName)) acc)
                     accumulator (map fst (builder_fields b))))"

section \<open>Queries, the query parser and \<^verbatim>\<open>search\<close> (Query.ts, QueryParser.ts, LunrIndex.ts)\<close>

text \<open>
  A clause of a query has optional members only; a \<^verbatim>\<open>Query\<close> holds its clauses and the fields
  of the index. A lexeme is what the query lexer emits.
\<close>

record QueryClause =
  clause_editDistance :: "int option"
  clause_wildcard :: "nat option"
  clause_fields :: "string list option"
  clause_boost :: "real option"
  clause_usePipeline :: "bool option"
  clause_term :: "string option"
  clause_presence :: "presence option"

record Query =
  clauses :: "QueryClause list"
  allFields :: "string list"

definition new_Query :: "string list \<Rightarrow> Query" where
  "new_Query fieldNames = \<lparr>clauses = [], allFields = fieldNames\<rparr>"

record Lexem =
  lexem_type :: string
  lexem_str :: string
  lexem_start :: nat
  lexem_end :: nat

text \<open>
  A \<^verbatim>\<open>QueryParser\<close>: the current clause, the index of the next lexeme, the lexer (made from the
  query string by the constructor, and run by \<^verbatim>\<open>parse\<close>), the lexemes, and the query that the
  parser fills. The parser mutates the query that it was given; in the model the query travels
  with the parser and is handed back at the end.
\<close>

record QueryParser =
  currentClause :: QueryClause
  lexemeIdx :: nat
  lexer_str :: string
  lexemes :: "Lexem list"
  parser_query :: Query

definition empty_QueryClause :: QueryClause where
  "empty_QueryClause =
     \<lparr>clause_editDistance = None, clause_wildcard = None, clause_fields = None, clause_boost = None,
      clause_usePipeline = None, clause_term = None, clause_presence = None\<rparr>"

definition new_QueryParser :: "string \<Rightarrow> Query \<Rightarrow> QueryParser" where
  "new_QueryParser str query =
     \<lparr>currentClause = empty_QueryClause, lexemeIdx = 0, lexer_str = str, lexemes = [],
      parser_query = query\<rparr>"

text \<open>
  A state of the parser is a function that is given the parser and returns the next state or
  \<^verbatim>\<open>undefined\<close>; it may change the parser and it may throw a \<^verbatim>\<open>QueryParseError\<close>.
\<close>

datatype parser_state =
  ParserState "QueryParser \<Rightarrow> error + QueryParser \<times> parser_state option"

text \<open>
  The loop of \<^verbatim>\<open>QueryParser.parse\<close>: it runs the current state until a state returns
  \<^verbatim>\<open>undefined\<close>. \<open>None\<close>: the loop does not end.
\<close>

partial_function (option) parse_loop :: "parser_state \<Rightarrow> QueryParser \<Rightarrow> (error + QueryParser) option" where
  "parse_loop state parser =
     (case state of ParserState f \<Rightarrow>
        (case f parser of
           Inl e \<Rightarrow> Some (Inl e)
         | Inr (parser', newState) \<Rightarrow>
             (case newState of
                None \<Rightarrow> Some (Inr parser')
              | Some state' \<Rightarrow> parse_loop state' parser')))"

text \<open>
  \<^verbatim>\<open>parse()\<close> runs the lexer, takes its lexemes, runs the loop from the state
  \<^verbatim>\<open>parseClause\<close> and returns the query. The lexer (\<open>lexer_run\<close>, from the query string to its
  lexemes) and the first state are arguments here: what follows holds whatever they are.
\<close>

definition parse :: "(string \<Rightarrow> Lexem list) \<Rightarrow> parser_state \<Rightarrow> QueryParser \<Rightarrow> (error + Query) option" where
  "parse lexer_run parseClause parser =
     (case parse_loop parseClause (parser\<lparr>lexemes := lexer_run (lexer_str parser)\<rparr>) of
        None \<Rightarrow> None
      | Some (Inl e) \<Rightarrow> Some (Inl e)
      | Some (Inr parser') \<Rightarrow> Some (Inr (parser_query parser')))"

text \<open>
  \<^verbatim>\<open>LunrIndex.query(fn)\<close> makes a query for the fields of the index, calls \<open>fn\<close> on it, and
  computes the results from the clauses that \<open>fn\<close> has left in the query. The callback is a
  function that is given the query and hands back the query as it has changed it, unless it
  throws or does not return. What \<^verbatim>\<open>query\<close> does after the callback, from the loop over the
  clauses to the sorted results, is the argument \<open>run_clauses\<close>.
\<close>

definition query ::
  "('idx \<Rightarrow> Query \<Rightarrow> error + 'r) \<Rightarrow> ('idx \<Rightarrow> string list) \<Rightarrow> 'idx
     \<Rightarrow> (Query \<Rightarrow> (error + Query) option) \<Rightarrow> (error + 'r) option" where
  "query run_clauses index_fields this fn =
     (let query = new_Query (index_fields this) in
      case fn query of
        None \<Rightarrow> None
      | Some (Inl e) \<Rightarrow> Some (Inl e)
      | Some (Inr query') \<Rightarrow> Some (run_clauses this query'))"

text \<open>\<^verbatim>\<open>LunrIndex.search(queryString)\<close>.\<close>

definition search ::
  "(string \<Rightarrow> Lexem list) \<Rightarrow> parser_state \<Rightarrow> ('idx \<Rightarrow> Query \<Rightarrow> error + 'r) \<Rightarrow> ('idx \<Rightarrow> string list)
     \<Rightarrow> 'idx \<Rightarrow> string \<Rightarrow> (error + 'r) option" where
  "search lexer_run parseClause run_clauses index_fields this queryString =
     query run_clauses index_fields this
       (\<lambda>query. let parser = new_QueryParser queryString query
                in parse lexer_run parseClause parser)"

section \<open>Properties of sparse vectors\<close>

lemma length_pairs: "length (pairs es) = length es div 2"
  by (induction es rule: pairs.induct) auto

lemma fst_pairs_nth: "j < length es div 2 \<Longrightarrow> fst (pairs es ! j) = es ! (2 * j)"
proof (induction es arbitrary: j rule: pairs.induct)
  case (1 i v es)
  then show ?case by (cases j) auto
qed auto

lemma snd_pairs_nth: "j < length es div 2 \<Longrightarrow> snd (pairs es ! j) = es ! (2 * j + 1)"
proof (induction es arbitrary: j rule: pairs.induct)
  case (1 i v es)
  then show ?case by (cases j) auto
qed auto

lemma pairs_take: "pairs (take (2 * p) es) = take p (pairs es)"
proof (induction p arbitrary: es)
  case 0
  then show ?case by simp
next
  case (Suc p)
  have "pairs (take (Suc (Suc (2 * p))) es) = take (Suc p) (pairs es)"
    using Suc.IH by (cases es rule: pairs.cases) auto
  then show ?case by simp
qed

lemma pairs_drop: "even (length es) \<Longrightarrow> pairs (drop (2 * p) es) = drop p (pairs es)"
proof (induction es arbitrary: p rule: pairs.induct)
  case (1 i v es)
  then show ?case by (cases p) auto
qed auto

lemma pairs_append: "even (length xs) \<Longrightarrow> pairs (xs @ ys) = pairs xs @ pairs ys"
  by (induction xs rule: pairs.induct) auto

lemma pairs_update_odd:
  "2 * p + 1 < length es \<Longrightarrow> pairs (es[2 * p + 1 := v]) = (pairs es)[p := (es ! (2 * p), v)]"
proof (induction es arbitrary: p rule: pairs.induct)
  case (1 i w es)
  then show ?case by (cases p) auto
qed auto

lemma sorted_idx:
  assumes "sorted_wrt (<) (map fst (pairs es))" "j < k" "k < length es div 2"
  shows "es ! (2 * j) < es ! (2 * k)"
proof -
  have "map fst (pairs es) ! j < map fst (pairs es) ! k"
    using assms sorted_wrt_nth_less[of "(<)" "map fst (pairs es)" j k] by (simp add: length_pairs)
  then show ?thesis using assms by (simp add: length_pairs fst_pairs_nth)
qed

lemma floor_half: "nat \<lfloor>(real e - real start) / 2\<rfloor> = (e - start) div 2" if "start \<le> e"
proof -
  have "(real e - real start) / 2 = real (e - start) / real 2" using that by simp
  then have "\<lfloor>(real e - real start) / 2\<rfloor> = int ((e - start) div 2)"
    by (simp only: floor_divide_of_nat_eq)
  then show ?thesis by simp
qed

lemma loop_spec:
  assumes "sorted_wrt (<) (map fst (pairs es))" "start < e" "e \<le> length es div 2"
    "\<forall>j<start. es ! (2 * j) < index"
    "\<forall>j. e \<le> j \<and> j < length es div 2 \<longrightarrow> index < es ! (2 * j)"
  shows "\<exists>p. positionForIndex_loop es index start (real e) = Some (p, es ! (2 * p)) \<and>
           p < length es div 2 \<and> (\<forall>j<p. es ! (2 * j) < index) \<and>
           (es ! (2 * p) \<noteq> index \<longrightarrow>
              (\<forall>j. p < j \<and> j < length es div 2 \<longrightarrow> index < es ! (2 * j)))"
  using assms
proof (induction "e - start" arbitrary: start e rule: less_induct)
  case less
  let ?sl = "e - start"
  let ?p = "start + ?sl div 2"
  let ?pv = "es ! (?p * 2)"
  have plt: "?p < e" using less.prems(2) by linarith
  have fl: "nat \<lfloor>(real e - real start) / 2\<rfloor> = ?sl div 2"
    using floor_half[of start e] less.prems(2) by simp
  have sl: "(real e - real start > 1) = (?sl > 1)" using less.prems(2) by linarith
  have below: "\<forall>j<?p. es ! (2 * j) < es ! (2 * ?p)"
    using sorted_idx[OF less.prems(1)] plt less.prems(3) by (meson less_le_trans)
  have above: "\<forall>j. ?p < j \<and> j < length es div 2 \<longrightarrow> es ! (2 * ?p) < es ! (2 * j)"
    using sorted_idx[OF less.prems(1)] by blast
  show ?case
  proof (cases "?sl > 1 \<and> ?pv \<noteq> index")
    case True
    then have sp: "start < ?p" by linarith
    have unf: "positionForIndex_loop es index start (real e) =
       positionForIndex_loop es index (if ?pv < index then ?p else start)
                (if ?pv > index then real ?p else real e)"
      using True sl fl by (subst positionForIndex_loop.simps) (simp add: Let_def)
    show ?thesis
    proof (cases "?pv < index")
      case lt: True
      have a: "\<forall>j<?p. es ! (2 * j) < index"
        using below lt by (auto simp: mult.commute)
      have d: "e - ?p < e - start" using sp plt by linarith
      show ?thesis
        unfolding unf using less.hyps[OF d less.prems(1) plt less.prems(3) a less.prems(5)] lt by simp
    next
      case nlt: False
      with True have gt: "index < ?pv" by linarith
      have b: "\<forall>j. ?p \<le> j \<and> j < length es div 2 \<longrightarrow> index < es ! (2 * j)"
      proof (intro allI impI)
        fix j assume j: "?p \<le> j \<and> j < length es div 2"
        show "index < es ! (2 * j)"
        proof (cases "j = ?p")
          case True then show ?thesis using gt by (simp add: mult.commute)
        next
          case False
          then have "es ! (2 * ?p) < es ! (2 * j)" using above j by auto
          then show ?thesis using gt by (simp add: mult.commute)
        qed
      qed
      have d: "?p - start < e - start" using sp plt by linarith
      have ple: "?p \<le> length es div 2" using plt less.prems(3) by linarith
      show ?thesis
        unfolding unf using less.hyps[OF d less.prems(1) sp ple less.prems(4) b] nlt gt by simp
    qed
  next
    case False
    then have res: "positionForIndex_loop es index start (real e) = Some (?p, ?pv)"
      using sl fl by (subst positionForIndex_loop.simps) (auto simp add: Let_def)
    show ?thesis
    proof (cases "?pv = index")
      case True
      have "\<forall>j<?p. es ! (2 * j) < index"
        using below True by (auto simp: mult.commute)
      then show ?thesis using res True plt less.prems(3) by (intro exI[of _ ?p]) (simp add: mult.commute)
    next
      case ne: False
      with False have "?sl \<le> 1" by auto
      then have e: "e = start + 1" "?p = start" using less.prems(2) by auto
      show ?thesis using res e less.prems(3,4,5) by (intro exI[of _ ?p]) (auto simp: mult.commute)
    qed
  qed
qed

lemma positionForIndex_spec:
  assumes "vector_sorted es"
  shows "\<exists>p. positionForIndex es index = Some (2 * p) \<and> p \<le> length es div 2 \<and>
           (\<forall>j<p. es ! (2 * j) < index) \<and>
           ((p < length es div 2 \<and> es ! (2 * p) = index) \<or>
            (\<forall>j. p \<le> j \<and> j < length es div 2 \<longrightarrow> index < es ! (2 * j)))"
proof (cases "es = []")
  case True
  then show ?thesis by (simp add: positionForIndex_def)
next
  case False
  with assms have n: "0 < length es div 2"
    by (cases es rule: pairs.cases) (auto simp: vector_sorted_def)
  have half: "real (length es) / 2 = real (length es div 2)"
    using assms by (auto simp: vector_sorted_def elim!: evenE)
  obtain p where r: "positionForIndex_loop es index 0 (real (length es) / 2) = Some (p, es ! (2 * p))"
    and s: "p < length es div 2" "\<forall>j<p. es ! (2 * j) < index"
      "es ! (2 * p) \<noteq> index \<longrightarrow> (\<forall>j. p < j \<and> j < length es div 2 \<longrightarrow> index < es ! (2 * j))"
    using loop_spec[of es 0 "length es div 2" index] assms n unfolding half by (auto simp: vector_sorted_def)
  define pv where "pv = es ! (2 * p)"
  note r = r[folded pv_def] and s = s[folded pv_def] pv_def
  consider "pv = index" | "index < pv" | "pv < index" by linarith
  then show ?thesis
  proof cases
    case 1
    then have "positionForIndex es index = Some (2 * p)" using r False by (simp add: positionForIndex_def)
    then show ?thesis using s 1 by auto
  next
    case 2
    then have "positionForIndex es index = Some (2 * p)" using r False by (simp add: positionForIndex_def)
    moreover have "\<forall>j. p \<le> j \<and> j < length es div 2 \<longrightarrow> index < es ! (2 * j)"
    proof (intro allI impI)
      fix j assume j: "p \<le> j \<and> j < length es div 2"
      show "index < es ! (2 * j)"
      proof (cases "j = p")
        case True then show ?thesis using s 2 by simp
      next
        case False
        then have "es ! (2 * p) < es ! (2 * j)"
          using sorted_idx[of es p j] assms j by (simp add: vector_sorted_def)
        then show ?thesis using s 2 by simp
      qed
    qed
    ultimately show ?thesis using s by auto
  next
    case 3
    then have "positionForIndex es index = Some (2 * (p + 1))" using r False by (simp add: positionForIndex_def)
    moreover have "\<forall>j<p + 1. es ! (2 * j) < index"
      using s 3 by (metis Suc_eq_plus1 less_Suc_eq)
    moreover have "\<forall>j. p + 1 \<le> j \<and> j < length es div 2 \<longrightarrow> index < es ! (2 * j)"
      using s 3 by auto
    ultimately show ?thesis using s by (intro exI[of _ "p + 1"]) auto
  qed
qed

lemma map_of_pairs_nth:
  assumes "sorted_wrt (<) (map fst (pairs es))" "p < length es div 2"
  shows "map_of (pairs es) (es ! (2 * p)) = Some (es ! (2 * p + 1))"
proof -
  have d: "distinct (map fst (pairs es))"
    using assms(1) by (simp add: strict_sorted_iff[symmetric] sorted_wrt_iff_nth_less distinct_conv_nth) (metis nat_neq_iff order_less_irrefl)
  have "pairs es ! p = (es ! (2 * p), es ! (2 * p + 1))"
    using fst_pairs_nth[of p es] snd_pairs_nth[of p es] assms(2) by (metis prod.collapse)
  then have "(es ! (2 * p), es ! (2 * p + 1)) \<in> set (pairs es)"
    using assms(2) by (metis length_pairs nth_mem)
  then show ?thesis using d by simp
qed

lemma map_of_pairs_absent:
  assumes "\<forall>j<length es div 2. es ! (2 * j) \<noteq> i"
  shows "map_of (pairs es) i = None"
proof -
  have "i \<notin> fst ` set (pairs es)"
  proof
    assume "i \<in> fst ` set (pairs es)"
    then obtain j where "j < length (pairs es)" "fst (pairs es ! j) = i"
      by (metis imageE in_set_conv_nth)
    then show False using assms by (simp add: length_pairs fst_pairs_nth)
  qed
  then show ?thesis by (simp add: map_of_eq_None_iff)
qed

lemma insort_at:
  assumes "\<forall>j<p. fst (ps ! j) < k" "\<forall>j. p \<le> j \<and> j < length ps \<longrightarrow> k < fst (ps ! j)" "p \<le> length ps"
  shows "take p ps @ [(k, v)] @ drop p ps = insort_key fst (k, v) ps"
  using assms
proof (induction ps arbitrary: p)
  case Nil
  then show ?case by simp
next
  case (Cons a ps)
  show ?case
  proof (cases p)
    case 0
    then have "k < fst a" using Cons.prems(2) by auto
    then show ?thesis using 0 by auto
  next
    case (Suc q)
    then have "fst a < k" using Cons.prems(1) by auto
    moreover have "take q ps @ [(k, v)] @ drop q ps = insort_key fst (k, v) ps"
      using Cons.prems Suc by (intro Cons.IH) auto
    ultimately show ?thesis using Suc by auto
  qed
qed


lemma map_of_update_nth:
  "distinct (map fst ps) \<Longrightarrow> p < length ps \<Longrightarrow> fst (ps ! p) = k \<Longrightarrow>
     map_of (ps[p := (k, v)]) = (map_of ps)(k \<mapsto> v)"
proof (induction ps arbitrary: p)
  case Nil
  then show ?case by simp
next
  case (Cons a ps)
  show ?case
  proof (cases p)
    case 0
    then show ?thesis using Cons.prems by (cases a) auto
  next
    case (Suc q)
    then have ih: "map_of (ps[q := (k, v)]) = (map_of ps)(k \<mapsto> v)"
      using Cons.prems by (intro Cons.IH) auto
    have "ps ! q \<in> set ps" using Cons.prems(2) Suc by simp
    then have "k \<in> fst ` set ps" using Cons.prems(3) Suc by force
    then have "fst a \<noteq> k" using Cons.prems(1) by auto
    then show ?thesis using Suc ih by (cases a) (auto simp: fun_upd_twist)
  qed
qed

lemma present_slot:
  assumes "vector_sorted es" "map_of (pairs es) i = Some a"
  shows "\<exists>p. positionForIndex es i = Some (2 * p) \<and> p < length es div 2 \<and> es ! (2 * p) = i \<and> es ! (2 * p + 1) = a"
proof -
  from assms(2) have "(i, a) \<in> set (pairs es)" by (rule map_of_SomeD)
  then obtain j where j: "j < length (pairs es)" "pairs es ! j = (i, a)"
    by (auto simp: in_set_conv_nth)
  then have ji: "j < length es div 2" "es ! (2 * j) = i"
    using fst_pairs_nth[of j es] by (auto simp: length_pairs)
  obtain p where p: "positionForIndex es i = Some (2 * p)" "p \<le> length es div 2"
      "\<forall>j<p. es ! (2 * j) < i"
      "(p < length es div 2 \<and> es ! (2 * p) = i) \<or>
            (\<forall>j. p \<le> j \<and> j < length es div 2 \<longrightarrow> i < es ! (2 * j))"
    using positionForIndex_spec[OF assms(1), of i] by blast
  have "p < length es div 2 \<and> es ! (2 * p) = i"
  proof (rule disjE[OF p(4)])
    assume "\<forall>j. p \<le> j \<and> j < length es div 2 \<longrightarrow> i < es ! (2 * j)"
    then have "\<not> p \<le> j" using ji by auto
    then have "es ! (2 * j) < i" using p(3) by auto
    then show ?thesis using ji by simp
  qed
  moreover have "es ! (2 * p + 1) = a"
    using map_of_pairs_nth[of es p] assms calculation by (simp add: vector_sorted_def)
  ultimately show ?thesis using p(1) by blast
qed

lemma absent_slot:
  assumes "vector_sorted es" "map_of (pairs es) i = None"
  shows "\<exists>p. positionForIndex es i = Some (2 * p) \<and> p \<le> length es div 2 \<and>
           (\<forall>j<p. es ! (2 * j) < i) \<and> (\<forall>j. p \<le> j \<and> j < length es div 2 \<longrightarrow> i < es ! (2 * j))"
proof -
  obtain p where p: "positionForIndex es i = Some (2 * p)" "p \<le> length es div 2"
      "\<forall>j<p. es ! (2 * j) < i"
      "(p < length es div 2 \<and> es ! (2 * p) = i) \<or>
            (\<forall>j. p \<le> j \<and> j < length es div 2 \<longrightarrow> i < es ! (2 * j))"
    using positionForIndex_spec[OF assms(1), of i] by blast
  have "\<not> (p < length es div 2 \<and> es ! (2 * p) = i)"
  proof
    assume h: "p < length es div 2 \<and> es ! (2 * p) = i"
    then have "map_of (pairs es) i = Some (es ! (2 * p + 1))"
      using map_of_pairs_nth[of es p] assms(1) by (auto simp: vector_sorted_def)
    then show False using assms(2) by simp
  qed
  then show ?thesis using p by blast
qed

lemma upsert_present:
  assumes "vector_sorted es" "map_of (pairs es) i = Some a" "f (Some a) x = Inr m"
  shows "\<exists>es'. upsert es i x (Some f) = Some (Inr es') \<and> vector_sorted es' \<and>
           map_of (pairs es') = (map_of (pairs es))(i \<mapsto> m)"
proof -
  obtain p where p: "positionForIndex es i = Some (2 * p)" "p < length es div 2" "es ! (2 * p) = i"
      "es ! (2 * p + 1) = a"
    using present_slot[OF assms(1,2)] by blast
  have ev: "even (length es)" and so: "sorted_wrt (<) (map fst (pairs es))"
    using assms(1) by (auto simp: vector_sorted_def)
  have len: "2 * p + 1 < length es" using p(2) ev by auto
  have u: "upsert es i x (Some f) = Some (Inr (es[2 * p + 1 := m]))"
    using p len assms(3) by (simp add: upsert_def Let_def)
  have pr: "pairs (es[2 * p + 1 := m]) = (pairs es)[p := (i, m)]"
    using pairs_update_odd[OF len] p(3) by simp
  have d: "distinct (map fst (pairs es))"
    using so strict_sorted_iff by blast
  have fi: "fst (pairs es ! p) = i" using fst_pairs_nth[OF p(2)] p(3) by simp
  have mf: "map fst ((pairs es)[p := (i, m)]) = map fst (pairs es)"
  proof -
    have "(map fst (pairs es)) ! p = i" using fi p(2) by (simp add: length_pairs)
    then show ?thesis by (simp add: map_update) (metis list_update_id)
  qed
  have "vector_sorted (es[2 * p + 1 := m])"
    unfolding vector_sorted_def pr mf using ev so by simp
  moreover have "map_of (pairs (es[2 * p + 1 := m])) = (map_of (pairs es))(i \<mapsto> m)"
    unfolding pr using map_of_update_nth[OF d _ fi] p(2) by (simp add: length_pairs)
  ultimately show ?thesis using u by blast
qed

lemma upsert_present_no_merge:
  assumes "vector_sorted es" "map_of (pairs es) i = Some a"
  shows "upsert es i x None = Some (Inr es)"
proof -
  obtain p where p: "positionForIndex es i = Some (2 * p)" "p < length es div 2" "es ! (2 * p) = i"
    using present_slot[OF assms(1,2)] by blast
  then show ?thesis by (simp add: upsert_def Let_def)
qed

lemma upsert_absent:
  assumes "vector_sorted es" "map_of (pairs es) i = None"
  shows "\<exists>es'. upsert es i x fn = Some (Inr es') \<and> vector_sorted es' \<and>
           pairs es' = insort_key fst (i, x) (pairs es)"
proof -
  obtain p where p: "positionForIndex es i = Some (2 * p)" "p \<le> length es div 2"
     "\<forall>j<p. es ! (2 * j) < i" "\<forall>j. p \<le> j \<and> j < length es div 2 \<longrightarrow> i < es ! (2 * j)"
    using absent_slot[OF assms] by blast
  have ev: "even (length es)" and so: "sorted_wrt (<) (map fst (pairs es))"
    using assms(1) by (auto simp: vector_sorted_def)
  let ?es' = "take (2 * p) es @ [i, x] @ drop (2 * p) es"
  have ne: "\<not> (2 * p < length es \<and> es ! (2 * p) = i)"
  proof
    assume h: "2 * p < length es \<and> es ! (2 * p) = i"
    then have "p < length es div 2" using ev by auto
    then have "i < es ! (2 * p)" using p(4) by auto
    then show False using h by simp
  qed
  have u: "upsert es i x fn = Some (Inr ?es')"
    using p(1) ne by (auto simp add: upsert_def Let_def)
  have lt: "length (take (2 * p) es) = 2 * p" using p(2) ev by auto
  have pr: "pairs ?es' = take p (pairs es) @ [(i, x)] @ drop p (pairs es)"
    using pairs_append[of "take (2 * p) es" "[i, x] @ drop (2 * p) es"] lt
    by (simp add: pairs_take pairs_drop[OF ev])
  have a1: "\<forall>j<p. fst (pairs es ! j) < i"
  proof (intro allI impI)
    fix j assume "j < p"
    then show "fst (pairs es ! j) < i" using p(2,3) fst_pairs_nth[of j es] by auto
  qed
  have a2: "\<forall>j. p \<le> j \<and> j < length (pairs es) \<longrightarrow> i < fst (pairs es ! j)"
    using p(4) fst_pairs_nth[of _ es] by (simp add: length_pairs)
  have ins: "pairs ?es' = insort_key fst (i, x) (pairs es)"
    unfolding pr using insort_at[OF a1 a2] p(2) by (simp add: length_pairs)
  have s1: "sorted_wrt (<) (map fst (take p (pairs es)))"
    using so by (simp add: sorted_wrt_take take_map[symmetric])
  have s2: "sorted_wrt (<) (map fst (drop p (pairs es)))"
    using so by (simp add: sorted_wrt_drop drop_map[symmetric])
  have b1: "\<forall>y\<in>set (take p (pairs es)). fst y < i"
    using a1 p(2) by (fastforce simp: in_set_conv_nth length_pairs)
  have b2: "\<forall>y\<in>set (drop p (pairs es)). i < fst y"
  proof
    fix y assume "y \<in> set (drop p (pairs es))"
    then obtain k where k: "k < length (drop p (pairs es))" "drop p (pairs es) ! k = y"
      by (auto simp: in_set_conv_nth)
    then have "y = pairs es ! (p + k)" "p + k < length (pairs es)" by auto
    then show "i < fst y" using a2 by auto
  qed
  have "sorted_wrt (<) (map fst (pairs ?es'))"
    unfolding pr using s1 s2 b1 b2 by (fastforce simp: sorted_wrt_append)
  moreover have "even (length ?es')" using ev lt by simp
  ultimately show ?thesis using u ins by (auto simp: vector_sorted_def)
qed

lemma map_of_insort_key_new:
  assumes "sorted_wrt (<) (map fst (insort_key fst (i, x) ps))"
  shows "map_of (insort_key fst (i, x) ps) i = Some x"
proof -
  have "distinct (map fst (insort_key fst (i, x) ps))"
    using assms strict_sorted_iff by blast
  moreover have "(i, x) \<in> set (insort_key fst (i, x) ps)"
    by (simp add: set_insort_key)
  ultimately show ?thesis by simp
qed

lemma query_upsert_present:
  assumes "vector_sorted es" "map_of (pairs es) t = Some a"
  shows "\<exists>es'. query_upsert es t boost = Some (Inr es') \<and> vector_sorted es' \<and>
           map_of (pairs es') = (map_of (pairs es))(t \<mapsto> a + boost_or_1 boost)"
  unfolding query_upsert_def
  using upsert_present[OF assms, of query_merge "boost_or_1 boost" "a + boost_or_1 boost"]
  by (simp add: query_merge_def)

lemma query_upsert_absent:
  assumes "vector_sorted es" "map_of (pairs es) t = None"
  shows "\<exists>es'. query_upsert es t boost = Some (Inr es') \<and> vector_sorted es' \<and>
           pairs es' = insort_key fst (t, boost_or_1 boost) (pairs es) \<and>
           map_of (pairs es') t = Some (boost_or_1 boost)"
proof -
  obtain es' where e: "upsert es t (boost_or_1 boost) (Some query_merge) = Some (Inr es')"
      "vector_sorted es'" "pairs es' = insort_key fst (t, boost_or_1 boost) (pairs es)"
    using upsert_absent[OF assms] by blast
  have "map_of (pairs es') t = Some (boost_or_1 boost)"
    using e(2,3) map_of_insort_key_new[of t "boost_or_1 boost" "pairs es"] by (simp add: vector_sorted_def)
  then show ?thesis using e by (auto simp: query_upsert_def)
qed

text \<open>
  C7 (amended). On a well-formed vector (even length, strictly increasing indices):
  if index \<open>i\<close> is present with value \<open>a\<close>, \<^verbatim>\<open>upsert\<close> with the query executor's merge
  function stores \<open>a + x\<close> at \<open>i\<close> and changes nothing else, while \<^verbatim>\<open>upsert\<close> without a merge
  function leaves the vector as it was (there is no default merge); if \<open>i\<close> is absent, the
  pair \<open>(i, x)\<close> is inserted at its sorted position whatever the merge function. In particular the
  executor's call \<^verbatim>\<open>upsert(termIndex, clause.boost || 1, merge)\<close>, for a clause whose boost is
  not 0, adds \<^verbatim>\<open>clause.boost\<close> to the value already at \<open>termIndex\<close> and inserts
  \<^verbatim>\<open>clause.boost\<close> when there is none: upserting the same term index twice, with boosts
  \<open>b1\<close> and \<open>b2\<close> that are not 0, leaves \<open>b1 + b2\<close>.
\<close>

theorem upsert_merges_or_inserts:
  assumes "vector_sorted es"
  shows "(\<forall>a. map_of (pairs es) i = Some a \<longrightarrow>
            (\<exists>es'. upsert es i x (Some query_merge) = Some (Inr es') \<and> vector_sorted es' \<and>
                   map_of (pairs es') = (map_of (pairs es))(i \<mapsto> a + x)) \<and>
            upsert es i x None = Some (Inr es) \<and>
            (boost \<noteq> 0 \<longrightarrow>
               (\<exists>es'. query_upsert es i boost = Some (Inr es') \<and> vector_sorted es' \<and>
                      map_of (pairs es') = (map_of (pairs es))(i \<mapsto> a + boost)))) \<and>
         (map_of (pairs es) i = None \<longrightarrow>
            (\<forall>fn. \<exists>es'. upsert es i x fn = Some (Inr es') \<and> vector_sorted es' \<and>
                   pairs es' = insort_key fst (i, x) (pairs es)) \<and>
            (b1 \<noteq> 0 \<and> b2 \<noteq> 0 \<longrightarrow>
               (\<exists>es1 es2. query_upsert es i b1 = Some (Inr es1) \<and>
                      pairs es1 = insort_key fst (i, b1) (pairs es) \<and>
                      query_upsert es1 i b2 = Some (Inr es2) \<and>
                      map_of (pairs es2) = (map_of (pairs es1))(i \<mapsto> b1 + b2))))"
proof (intro conjI allI impI)
  fix a assume "map_of (pairs es) i = Some a"
  then show "\<exists>es'. upsert es i x (Some query_merge) = Some (Inr es') \<and> vector_sorted es' \<and>
                   map_of (pairs es') = (map_of (pairs es))(i \<mapsto> a + x)"
    using upsert_present[OF assms, of i a query_merge x "a + x"] by (simp add: query_merge_def)
next
  fix a assume "map_of (pairs es) i = Some a"
  then show "upsert es i x None = Some (Inr es)" using upsert_present_no_merge[OF assms] by blast
next
  fix a assume "map_of (pairs es) i = Some a" "boost \<noteq> 0"
  then show "\<exists>es'. query_upsert es i boost = Some (Inr es') \<and> vector_sorted es' \<and>
                      map_of (pairs es') = (map_of (pairs es))(i \<mapsto> a + boost)"
    using query_upsert_present[OF assms, of i a boost] by (simp add: boost_or_1_def)
next
  fix fn assume "map_of (pairs es) i = None"
  then show "\<exists>es'. upsert es i x fn = Some (Inr es') \<and> vector_sorted es' \<and>
                   pairs es' = insort_key fst (i, x) (pairs es)"
    using upsert_absent[OF assms] by blast
next
  assume ab: "map_of (pairs es) i = None" and nz: "b1 \<noteq> 0 \<and> b2 \<noteq> 0"
  obtain es1 where e1: "query_upsert es i b1 = Some (Inr es1)" "vector_sorted es1"
      "pairs es1 = insort_key fst (i, b1) (pairs es)" "map_of (pairs es1) i = Some b1"
    using query_upsert_absent[OF assms ab, of b1] nz by (auto simp: boost_or_1_def)
  obtain es2 where e2: "query_upsert es1 i b2 = Some (Inr es2)"
      "map_of (pairs es2) = (map_of (pairs es1))(i \<mapsto> b1 + b2)"
    using query_upsert_present[OF e1(2,4), of b2] nz by (auto simp: boost_or_1_def)
  show "\<exists>es1 es2. query_upsert es i b1 = Some (Inr es1) \<and>
                      pairs es1 = insort_key fst (i, b1) (pairs es) \<and>
                      query_upsert es1 i b2 = Some (Inr es2) \<and>
                      map_of (pairs es2) = (map_of (pairs es1))(i \<mapsto> b1 + b2)"
    using e1(1,3) e2 by blast
qed

lemma vector_sorted_1_5: "vector_sorted [1, 5]"
  by (simp add: vector_sorted_def)

lemma vector_sorted_Nil: "vector_sorted []"
  by (simp add: vector_sorted_def)

theorem upsert_merges_or_inserts_witness:
  "vector_sorted [1, 5] \<and> map_of (pairs [1, 5]) 1 = Some 5 \<and> map_of (pairs [1, 5]) 0 = None \<and>
   (2::real) \<noteq> 0 \<and> (3::real) \<noteq> 0 \<and>
   (\<exists>es'. upsert [1, 5] 1 3 (Some query_merge) = Some (Inr es') \<and> map_of (pairs es') 1 = Some 8) \<and>
   upsert [1, 5] 1 3 None = Some (Inr [1, 5]) \<and>
   (\<exists>es'. query_upsert [1, 5] 1 2 = Some (Inr es') \<and> map_of (pairs es') 1 = Some 7) \<and>
   (\<exists>es'. upsert [1, 5] 0 3 None = Some (Inr es') \<and> pairs es' = [(0, 3), (1, 5)]) \<and>
   (\<exists>es1 es2. query_upsert [1, 5] 0 2 = Some (Inr es1) \<and> pairs es1 = [(0, 2), (1, 5)] \<and>
      query_upsert es1 0 3 = Some (Inr es2) \<and> map_of (pairs es2) 0 = Some 5)"
proof -
  have p: "map_of (pairs [1, 5::real]) 1 = Some 5" by simp
  have q: "map_of (pairs [1, 5::real]) 0 = None" by simp
  note present = upsert_merges_or_inserts[OF vector_sorted_1_5, of 1 3 2 0 0]
  note absent = upsert_merges_or_inserts[OF vector_sorted_1_5, of 0 3 0 2 3]
  have "\<exists>es'. upsert [1, 5] 1 3 (Some query_merge) = Some (Inr es') \<and> map_of (pairs es') 1 = Some 8"
    using present p by fastforce
  moreover have "upsert [1, 5] 1 3 None = Some (Inr [1, 5])"
    using present p by blast
  moreover have "\<exists>es'. query_upsert [1, 5] 1 2 = Some (Inr es') \<and> map_of (pairs es') 1 = Some 7"
    using present p by fastforce
  moreover have "\<exists>es'. upsert [1, 5] 0 3 None = Some (Inr es') \<and> pairs es' = [(0, 3), (1, 5)]"
    using absent q by fastforce
  moreover have "\<exists>es1 es2. query_upsert [1, 5] 0 2 = Some (Inr es1) \<and> pairs es1 = [(0, 2), (1, 5)] \<and>
      query_upsert es1 0 3 = Some (Inr es2) \<and> map_of (pairs es2) 0 = Some 5"
    using absent q by fastforce
  ultimately show ?thesis using vector_sorted_1_5 p q by simp
qed

lemma positionForIndex_1_5: "positionForIndex [1, 5] 1 = Some 0"
  by (simp add: positionForIndex_def positionForIndex_loop.simps)

lemma query_upsert_zero_twice:
  "query_upsert [] 7 0 = Some (Inr [7, 1]) \<and> query_upsert [7, 1] 7 0 = Some (Inr [7, 2])"
  by (simp add: query_upsert_def upsert_def positionForIndex_def positionForIndex_loop.simps
      boost_or_1_def query_merge_def)

text \<open>
  C7 as stated fails in two places. \<^verbatim>\<open>upsert\<close> called without a merge function on a vector
  that already holds value 5 at index 1 leaves 5 there, not 5 + 3. And the executor does not
  accumulate \<^verbatim>\<open>clause.boost\<close> when the boost is 0: it upserts \<^verbatim>\<open>clause.boost || 1\<close>, so two
  clauses of boost 0 on term index 7 leave 1 + 1 = 2 in an empty query vector, not 0 + 0.
\<close>

theorem upsert_default_merge_counterexample:
  "vector_sorted [1, 5] \<and> map_of (pairs [1, 5]) 1 = Some 5 \<and>
   upsert [1, 5] 1 3 None = Some (Inr [1, 5]) \<and> map_of (pairs [1, 5]) 1 \<noteq> Some (5 + 3) \<and>
   vector_sorted [] \<and> query_upsert [] 7 0 = Some (Inr [7, 1]) \<and>
   query_upsert [7, 1] 7 0 = Some (Inr [7, 2]) \<and> map_of (pairs [7, 2]) 7 \<noteq> Some (0 + 0)"
  using positionForIndex_1_5 query_upsert_zero_twice
  by (simp add: vector_sorted_def upsert_def)

section \<open>The pairs of edges that \<^verbatim>\<open>intersect\<close> admits\<close>

lemma map_of_update_edge: "map_of (update_edge c t es) c = Some t"
  by (induction es) auto





text \<open>
  The same on whole token sets: with the pattern \<^verbatim>\<open>*\<close> as the receiver and the word \<^verbatim>\<open>a\<close> as
  the argument the intersection is empty, and with the two exchanged it is the word.
\<close>

lemma intersect_star_orientation:
  "(case fromString initial_store ''*'' of (s1, a) \<Rightarrow>
    case fromString s1 ''a'' of (s2, b) \<Rightarrow>
      (case intersect s2 a b of None \<Rightarrow> None | Some (s3, out) \<Rightarrow> toArray s3 out)) = Some [] \<and>
   (case fromString initial_store ''*'' of (s1, a) \<Rightarrow>
    case fromString s1 ''a'' of (s2, b) \<Rightarrow>
      (case intersect s2 b a of None \<Rightarrow> None | Some (s3, out) \<Rightarrow> toArray s3 out)) = Some [''a'']"
  by code_simp

text \<open>
  The same with a fuzzy token set: \<^verbatim>\<open>fromFuzzyString('a', 1)\<close> as the receiver and the word
  \<^verbatim>\<open>b\<close>, one substitution away, as the argument give the empty intersection; with the two
  exchanged the intersection is the word.
\<close>

lemma intersect_fuzzy_orientation:
  "(case fromFuzzyString initial_store ''a'' 1 of None \<Rightarrow> None | Some (s1, a) \<Rightarrow>
      (case fromString s1 ''b'' of (s2, b) \<Rightarrow>
         (case intersect s2 a b of None \<Rightarrow> None | Some (s3, out) \<Rightarrow> toArray s3 out))) = Some [] \<and>
   (case fromFuzzyString initial_store ''a'' 1 of None \<Rightarrow> None | Some (s1, a) \<Rightarrow>
      (case fromString s1 ''b'' of (s2, b) \<Rightarrow>
         (case intersect s2 b a of None \<Rightarrow> None | Some (s3, out) \<Rightarrow> toArray s3 out))) = Some [''b'']"
  by code_simp

section \<open>The ordering check of the token-set builder\<close>

lemma minimize_done:
  "\<not> downTo < length (uncheckedNodes b) \<Longrightarrow> minimize downTo s b = (s, b)"
  by (simp add: minimize.simps)

lemma minimize_found:
  assumes "downTo < length (uncheckedNodes b)" "last (uncheckedNodes b) = (parent, char, child)"
    "minimizedNodes b (toString s child) = Some m"
  shows "minimize downTo s b =
           minimize downTo (set_edge s parent char m) (b\<lparr>uncheckedNodes := butlast (uncheckedNodes b)\<rparr>)"
  using assms by (subst minimize.simps) (simp add: Let_def)

lemma minimize_fresh:
  assumes "downTo < length (uncheckedNodes b)" "last (uncheckedNodes b) = (parent, char, child)"
    "minimizedNodes b (toString s child) = None"
  shows "minimize downTo s b =
           minimize downTo (set_str s child (toString s child))
             (b\<lparr>minimizedNodes := (minimizedNodes b)(toString s child \<mapsto> child),
                uncheckedNodes := butlast (uncheckedNodes b)\<rparr>)"
  using assms by (subst minimize.simps) (simp add: Let_def)

lemma minimize_previousWord: "minimize downTo s b = (s', b') \<Longrightarrow> previousWord b' = previousWord b"
proof (induction "length (uncheckedNodes b)" arbitrary: s b)
  case 0
  then show ?case by (simp add: minimize_done)
next
  case (Suc k)
  show ?case
  proof (cases "downTo < length (uncheckedNodes b)")
    case False
    then show ?thesis using Suc.prems by (simp add: minimize_done)
  next
    case True
    obtain parent char child where l: "last (uncheckedNodes b) = (parent, char, child)"
      by (cases "last (uncheckedNodes b)")
    have k: "k = length (butlast (uncheckedNodes b))" using Suc.hyps(2) by simp
    show ?thesis
    proof (cases "minimizedNodes b (toString s child)")
      case None
      show ?thesis
        using Suc.hyps(1)[of "b\<lparr>minimizedNodes := (minimizedNodes b)(toString s child \<mapsto> child),
                uncheckedNodes := butlast (uncheckedNodes b)\<rparr>" "set_str s child (toString s child)"]
          k Suc.prems minimize_fresh[OF True l None] by simp
    next
      case (Some m)
      show ?thesis
        using Suc.hyps(1)[of "b\<lparr>uncheckedNodes := butlast (uncheckedNodes b)\<rparr>" "set_edge s parent char m"]
          k Suc.prems minimize_found[OF True l Some] by simp
    qed
  qed
qed

lemma builder_insert_previousWord:
  "builder_insert word s b = Inr (s', b') \<Longrightarrow> previousWord b' = word"
  by (auto simp: builder_insert_def Let_def split: prod.splits if_splits)

lemma builder_insert_ok:
  "\<not> word < previousWord b \<Longrightarrow> \<exists>s' b'. builder_insert word s b = Inr (s', b') \<and> previousWord b' = word"
  by (auto simp: builder_insert_def Let_def split: prod.splits)

lemma insert_all_sorted:
  "(\<exists>s' b'. insert_all arr s b = Inr (s', b')) \<longleftrightarrow> sorted (previousWord b # arr)"
proof (induction arr arbitrary: s b)
  case Nil
  then show ?case by simp
next
  case (Cons word arr)
  show ?case
  proof (cases "word < previousWord b")
    case True
    then have "builder_insert word s b = Inl OutOfOrderWordInsertion"
      by (simp add: builder_insert_def)
    then show ?thesis using True by auto
  next
    case False
    then obtain s1 b1 where i: "builder_insert word s b = Inr (s1, b1)" "previousWord b1 = word"
      using builder_insert_ok by blast
    have "(\<exists>s' b'. insert_all arr s1 b1 = Inr (s', b')) \<longleftrightarrow> sorted (word # arr)"
      using Cons.IH[of s1 b1] i(2) by simp
    moreover have "sorted (previousWord b # word # arr) \<longleftrightarrow> sorted (word # arr)"
      using False by (simp only: sorted2) auto
    ultimately show ?thesis using i(1) by simp
  qed
qed

lemma insert_all_error:
  "insert_all arr s b = Inl e \<Longrightarrow> e = OutOfOrderWordInsertion"
proof (induction arr arbitrary: s b)
  case Nil
  then show ?case by simp
next
  case (Cons word arr)
  then show ?case
    by (auto simp: builder_insert_def Let_def split: sum.splits prod.splits if_splits)
qed

lemma fromArray_sorted:
  "(\<exists>s' r. fromArray s arr = Inr (s', r)) \<longleftrightarrow> sorted arr"
proof -
  obtain s0 b0 where n: "new_TokenSetBuilder s = (s0, b0)" by (cases "new_TokenSetBuilder s")
  then have p: "previousWord b0 = []" by (auto simp: new_TokenSetBuilder_def split: prod.splits)
  have "(\<exists>s' b'. insert_all arr s0 b0 = Inr (s', b')) \<longleftrightarrow> sorted arr"
    using insert_all_sorted[of arr s0 b0] p by simp
  then show ?thesis
    using n by (auto simp: fromArray_def split: sum.splits prod.splits)
qed

lemma fromArray_unsorted:
  "fromArray s arr = Inl OutOfOrderWordInsertion \<longleftrightarrow> \<not> sorted arr"
proof -
  have "fromArray s arr = Inl OutOfOrderWordInsertion \<longleftrightarrow> \<not> (\<exists>s' r. fromArray s arr = Inr (s', r))"
  proof
    assume "fromArray s arr = Inl OutOfOrderWordInsertion"
    then show "\<not> (\<exists>s' r. fromArray s arr = Inr (s', r))" by auto
  next
    assume a: "\<not> (\<exists>s' r. fromArray s arr = Inr (s', r))"
    then obtain e where e: "fromArray s arr = Inl e" by (cases "fromArray s arr") auto
    then have "e = OutOfOrderWordInsertion"
      using insert_all_error by (auto simp: fromArray_def split: sum.splits prod.splits)
    then show "fromArray s arr = Inl OutOfOrderWordInsertion" using e by simp
  qed
  then show ?thesis using fromArray_sorted by simp
qed

text \<open>
  C6 (amended). An insertion fails with the ordering error exactly when the word is strictly
  smaller than the previously inserted word; a word equal to the previous one is accepted, like a
  greater one, and becomes the previous word. So \<^verbatim>\<open>fromArray\<close> fails, with the ordering error,
  exactly on the arrays that are not sorted in non-decreasing order.
\<close>

theorem insert_fails_iff_word_smaller:
  "(builder_insert word s b = Inl OutOfOrderWordInsertion \<longleftrightarrow> word < previousWord b) \<and>
   (\<not> word < previousWord b \<longrightarrow>
      (\<exists>s' b'. builder_insert word s b = Inr (s', b') \<and> previousWord b' = word)) \<and>
   (fromArray s arr = Inl OutOfOrderWordInsertion \<longleftrightarrow> \<not> sorted arr) \<and>
   ((\<exists>s' r. fromArray s arr = Inr (s', r)) \<longleftrightarrow> sorted arr)"
proof -
  have "builder_insert word s b = Inl OutOfOrderWordInsertion \<longleftrightarrow> word < previousWord b"
    by (auto simp: builder_insert_def Let_def split: prod.splits)
  then show ?thesis
    using builder_insert_ok fromArray_unsorted fromArray_sorted by blast
qed

lemma new_builder_previousWord:
  "new_TokenSetBuilder s = (s0, b0) \<Longrightarrow> previousWord b0 = []"
  by (auto simp: new_TokenSetBuilder_def split: prod.splits)

theorem insert_fails_iff_word_smaller_witness:
  "(case new_TokenSetBuilder initial_store of (s0, b0) \<Rightarrow>
      \<not> ''b'' < previousWord b0 \<and>
      (case builder_insert ''b'' s0 b0 of
         Inl e \<Rightarrow> False
       | Inr (s1, b1) \<Rightarrow>
           previousWord b1 = ''b'' \<and> ''a'' < previousWord b1 \<and>
           builder_insert ''a'' s1 b1 = Inl OutOfOrderWordInsertion \<and>
           \<not> ''c'' < previousWord b1 \<and>
           builder_insert ''c'' s1 b1 \<noteq> Inl OutOfOrderWordInsertion)) \<and>
   \<not> sorted [''b'', ''a''] \<and> fromArray initial_store [''b'', ''a''] = Inl OutOfOrderWordInsertion \<and>
   sorted [''a'', ''b''] \<and> fromArray initial_store [''a'', ''b''] \<noteq> Inl OutOfOrderWordInsertion"
proof -
  obtain s0 b0 where n: "new_TokenSetBuilder initial_store = (s0, b0)"
    by (cases "new_TokenSetBuilder initial_store")
  have p0: "\<not> ''b'' < previousWord b0" using new_builder_previousWord[OF n] by simp
  obtain s1 b1 where i: "builder_insert ''b'' s0 b0 = Inr (s1, b1)" "previousWord b1 = ''b''"
    using insert_fails_iff_word_smaller[of "''b''" s0 b0 "[''b'', ''a'']"] p0 by blast
  have lt: "''a'' < previousWord b1" and nlt: "\<not> ''c'' < previousWord b1" using i(2) by simp_all
  have f: "builder_insert ''a'' s1 b1 = Inl OutOfOrderWordInsertion"
    using insert_fails_iff_word_smaller[of "''a''" s1 b1 "[''b'', ''a'']"] lt by blast
  have g: "builder_insert ''c'' s1 b1 \<noteq> Inl OutOfOrderWordInsertion"
    using insert_fails_iff_word_smaller[of "''c''" s1 b1 "[''a'', ''b'']"] nlt by blast
  have 2: "''a'' < ''b''" by simp
  have 3: "\<not> sorted [''b'', ''a'']" using 2 by auto
  have 4: "sorted [''a'', ''b'']" using 2 by auto
  have 5: "fromArray initial_store [''b'', ''a''] = Inl OutOfOrderWordInsertion"
    using insert_fails_iff_word_smaller[of "''a''" initial_store b1 "[''b'', ''a'']"] 3 by blast
  have 6: "fromArray initial_store [''a'', ''b''] \<noteq> Inl OutOfOrderWordInsertion"
    using insert_fails_iff_word_smaller[of "''a''" initial_store b1 "[''a'', ''b'']"] 4 by blast
  show ?thesis using n p0 i lt nlt f g 3 4 5 6 by simp
qed

text \<open>
  C6 as stated fails: the word \<^verbatim>\<open>a\<close> is not strictly greater than the previously inserted
  \<^verbatim>\<open>a\<close>, yet its insertion does not fail, and \<^verbatim>\<open>fromArray(['a', 'a'])\<close>, on an array that
  is not strictly sorted, returns.
\<close>

theorem insert_equal_word_counterexample:
  "(case new_TokenSetBuilder initial_store of (s0, b0) \<Rightarrow>
      case builder_insert ''a'' s0 b0 of
        Inl e \<Rightarrow> False
      | Inr (s1, b1) \<Rightarrow>
          previousWord b1 = ''a'' \<and> \<not> ''a'' > previousWord b1 \<and>
          builder_insert ''a'' s1 b1 \<noteq> Inl OutOfOrderWordInsertion) \<and>
   \<not> sorted_wrt (<) [''a'', ''a''] \<and>
   fromArray initial_store [''a'', ''a''] \<noteq> Inl OutOfOrderWordInsertion"
proof -
  obtain s0 b0 where n: "new_TokenSetBuilder initial_store = (s0, b0)"
    by (cases "new_TokenSetBuilder initial_store")
  have p0: "\<not> ''a'' < previousWord b0" using new_builder_previousWord[OF n] by simp
  obtain s1 b1 where i: "builder_insert ''a'' s0 b0 = Inr (s1, b1)" "previousWord b1 = ''a''"
    using builder_insert_ok[OF p0] by blast
  have "\<not> ''a'' < previousWord b1" using i(2) by simp
  then have g: "builder_insert ''a'' s1 b1 \<noteq> Inl OutOfOrderWordInsertion"
    using builder_insert_ok[of "''a''" b1 s1] by auto
  have "fromArray initial_store [''a'', ''a''] \<noteq> Inl OutOfOrderWordInsertion"
    using fromArray_unsorted[of initial_store "[''a'', ''a'']"] by simp
  then show ?thesis using n i g by simp
qed

section \<open>Nodes of different languages with the same key\<close>

lemma set_str_final: "final (nodes (set_str s c k) n) = final (nodes s n)"
  by (simp add: set_str_def)

lemma set_str_edges: "edges (nodes (set_str s c k) n) = edges (nodes s n)"
  by (simp add: set_str_def)

lemma set_str_nextId: "nextId (set_str s c k) = nextId s"
  by (simp add: set_str_def)

lemma set_edge_final: "final (nodes (set_edge s p c m) n) = final (nodes s n)"
  by (simp add: set_edge_def)

lemma set_edge_edges_other: "n \<noteq> p \<Longrightarrow> edges (nodes (set_edge s p c m) n) = edges (nodes s n)"
  by (simp add: set_edge_def)

lemma set_edge_nextId: "nextId (set_edge s p c m) = nextId s"
  by (simp add: set_edge_def)

lemmas frame_simps = set_str_final set_str_edges set_str_nextId set_edge_final set_edge_nextId

lemma minimize_frame:
  "minimize downTo s b = (s', b') \<Longrightarrow>
     nextId s' = nextId s \<and> builder_root b' = builder_root b \<and>
     previousWord b' = previousWord b \<and>
     uncheckedNodes b' = take downTo (uncheckedNodes b) \<and>
     (\<forall>k v. minimizedNodes b k = Some v \<longrightarrow> minimizedNodes b' k = Some v) \<and>
     (\<forall>n. final (nodes s' n) = final (nodes s n)) \<and>
     (\<forall>n. (\<forall>e \<in> set (drop downTo (uncheckedNodes b)). fst e \<noteq> n) \<longrightarrow>
            edges (nodes s' n) = edges (nodes s n))"
proof (induction "length (uncheckedNodes b)" arbitrary: s b)
  case 0
  then show ?case by (simp add: minimize_done)
next
  case (Suc k)
  show ?case
  proof (cases "downTo < length (uncheckedNodes b)")
    case False
    then show ?thesis using Suc.prems by (simp add: minimize_done)
  next
    case True
    obtain parent char child where l: "last (uncheckedNodes b) = (parent, char, child)"
      by (cases "last (uncheckedNodes b)")
    have ne: "uncheckedNodes b \<noteq> []" using True by auto
    have k: "k = length (butlast (uncheckedNodes b))" using Suc.hyps(2) by simp
    have tk: "take downTo (butlast (uncheckedNodes b)) = take downTo (uncheckedNodes b)"
      using True by (simp add: take_butlast)
    have sub: "set (drop downTo (butlast (uncheckedNodes b))) \<subseteq> set (drop downTo (uncheckedNodes b))"
      by (metis drop_butlast in_set_butlastD subsetI)
    have "last (drop downTo (uncheckedNodes b)) = last (uncheckedNodes b)"
      using True by simp
    moreover have "drop downTo (uncheckedNodes b) \<noteq> []" using True by simp
    ultimately have par: "(parent, char, child) \<in> set (drop downTo (uncheckedNodes b))"
      using l by (metis last_in_set)
    show ?thesis
    proof (cases "minimizedNodes b (toString s child)")
      case None
      let ?s = "set_str s child (toString s child)"
      let ?b = "b\<lparr>minimizedNodes := (minimizedNodes b)(toString s child \<mapsto> child),
                uncheckedNodes := butlast (uncheckedNodes b)\<rparr>"
      have m: "minimize downTo ?s ?b = (s', b')"
        using Suc.prems minimize_fresh[OF True l None] by simp
      have kk: "k = length (uncheckedNodes ?b)" using k by simp
      note ih = Suc.hyps(1)[OF kk m]
      have keep: "minimizedNodes ?b k = Some v" if "minimizedNodes b k = Some v" for k v
        using None that by auto
      show ?thesis
      proof (intro conjI allI impI)
        show "nextId s' = nextId s" using ih by (simp add: frame_simps)
        show "builder_root b' = builder_root b" using ih by (simp add: frame_simps)
        show "previousWord b' = previousWord b" using ih by (simp add: frame_simps)
        show "uncheckedNodes b' = take downTo (uncheckedNodes b)" using ih tk by (simp add: frame_simps)
        show "minimizedNodes b' k = Some v" if "minimizedNodes b k = Some v" for k v
          using ih keep[OF that] by blast
        show "final (nodes s' n) = final (nodes s n)" for n using ih by (simp add: frame_simps)
        show "edges (nodes s' n) = edges (nodes s n)"
          if "\<forall>e \<in> set (drop downTo (uncheckedNodes b)). fst e \<noteq> n" for n
        proof -
          have "\<forall>e \<in> set (drop downTo (uncheckedNodes ?b)). fst e \<noteq> n"
            using that sub by auto
          with ih have "edges (nodes s' n) = edges (nodes ?s n)" by blast
          then show ?thesis by (simp add: frame_simps)
        qed
      qed
    next
      case (Some m)
      let ?s = "set_edge s parent char m"
      let ?b = "b\<lparr>uncheckedNodes := butlast (uncheckedNodes b)\<rparr>"
      have m: "minimize downTo ?s ?b = (s', b')"
        using Suc.prems minimize_found[OF True l Some] by simp
      have kk: "k = length (uncheckedNodes ?b)" using k by simp
      note ih = Suc.hyps(1)[OF kk m]
      show ?thesis
      proof (intro conjI allI impI)
        show "nextId s' = nextId s" using ih by (simp add: frame_simps)
        show "builder_root b' = builder_root b" using ih by (simp add: frame_simps)
        show "previousWord b' = previousWord b" using ih by (simp add: frame_simps)
        show "uncheckedNodes b' = take downTo (uncheckedNodes b)" using ih tk by (simp add: frame_simps)
        show "minimizedNodes b' k = Some v" if "minimizedNodes b k = Some v" for k v
          using ih that by (simp add: frame_simps)
        show "final (nodes s' n) = final (nodes s n)" for n using ih by (simp add: frame_simps)
        show "edges (nodes s' n) = edges (nodes s n)"
          if "\<forall>e \<in> set (drop downTo (uncheckedNodes b)). fst e \<noteq> n" for n
        proof -
          have "\<forall>e \<in> set (drop downTo (uncheckedNodes ?b)). fst e \<noteq> n"
            using that sub by auto
          with ih have "edges (nodes s' n) = edges (nodes ?s n)" by blast
          moreover have "n \<noteq> parent" using that par by auto
          ultimately show ?thesis by (simp add: set_edge_edges_other frame_simps)
        qed
      qed
    qed
  qed
qed


lemma insert_loop_append:
  "insert_loop (as @ bs) s b node =
     (case insert_loop as s b node of (s1, b1, node1) \<Rightarrow> insert_loop bs s1 b1 node1)"
  by (induction as arbitrary: s b node) (auto split: prod.splits)

lemma insert_loop_frame:
  "insert_loop cs s b node = (s', b', node') \<Longrightarrow> node < nextId s \<Longrightarrow>
     nextId s' = nextId s + length cs \<and> node' < nextId s' \<and>
     minimizedNodes b' = minimizedNodes b \<and> builder_root b' = builder_root b \<and>
     previousWord b' = previousWord b \<and>
     (\<exists>ys. uncheckedNodes b' = uncheckedNodes b @ ys \<and> (\<forall>e \<in> set ys. fst e < nextId s')) \<and>
     (\<forall>n. n < nextId s \<and> n \<noteq> node \<longrightarrow> nodes s' n = nodes s n) \<and>
     (cs \<noteq> [] \<longrightarrow> node' = nextId s' - 1 \<and> nodes s' node' = empty_TokenSet)"
proof (induction cs arbitrary: s b node)
  case Nil
  then show ?case by simp
next
  case (Cons c cs)
  let ?s = "set_edge (fst (new_TokenSet s)) node c (nextId s)"
  let ?b = "b\<lparr>uncheckedNodes := uncheckedNodes b @ [(node, c, nextId s)]\<rparr>"
  have call: "insert_loop cs ?s ?b (nextId s) = (s', b', node')"
    using Cons.prems(1) by (simp add: new_TokenSet_def)
  have nid: "nextId ?s = nextId s + 1"
    by (simp add: new_TokenSet_def set_edge_def)
  have lt: "nextId s < nextId ?s" using nid by simp
  note ih = Cons.IH[OF call lt]
  from ih obtain ys where ys: "uncheckedNodes b' = uncheckedNodes ?b @ ys"
    "\<forall>e \<in> set ys. fst e < nextId s'" by blast
  have n': "nextId s' = nextId s + length (c # cs)" using ih nid by simp
  have un: "uncheckedNodes b' = uncheckedNodes b @ ((node, c, nextId s) # ys)"
    using ys(1) by simp
  have all: "\<forall>e \<in> set ((node, c, nextId s) # ys). fst e < nextId s'"
    using ys(2) Cons.prems(2) n' by simp
  have old: "nodes s' n = nodes s n" if "n < nextId s \<and> n \<noteq> node" for n
  proof -
    have "n < nextId ?s \<and> n \<noteq> nextId s" using that nid by simp
    with ih have "nodes s' n = nodes ?s n" by blast
    also have "\<dots> = nodes s n" using that by (simp add: new_TokenSet_def set_edge_def)
    finally show ?thesis .
  qed
  have last: "node' = nextId s' - 1 \<and> nodes s' node' = empty_TokenSet"
  proof (cases "cs = []")
    case True
    then have "s' = ?s" "node' = nextId s" using call by auto
    moreover have "node \<noteq> nextId s" using Cons.prems(2) by simp
    ultimately show ?thesis using nid by (simp add: new_TokenSet_def set_edge_def)
  next
    case False
    then show ?thesis using ih by blast
  qed
  have ex: "\<exists>ys. uncheckedNodes b' = uncheckedNodes b @ ys \<and> (\<forall>e \<in> set ys. fst e < nextId s')"
    using un all by blast
  have misc: "node' < nextId s'" "minimizedNodes b' = minimizedNodes b"
    "builder_root b' = builder_root b" "previousWord b' = previousWord b"
    using ih by simp_all
  show ?case
    using n' misc ex old last by blast
qed

lemma toArray_fold:
  "foldl (\<lambda>stk edge. case edge_target s m edge of Some t \<Rightarrow> (p @ [edge], t) # stk | None \<Rightarrow> stk) stack ks
     = rev (List.map_filter (\<lambda>edge. map_option (\<lambda>t. (p @ [edge], t)) (edge_target s m edge)) ks) @ stack"
  by (induction ks arbitrary: stack) (auto simp: List.map_filter_simps split: option.splits)

lemma run_append:
  "run s n (u @ v) = (case run s n u of None \<Rightarrow> None | Some t \<Rightarrow> run s t v)"
  by (induction u arbitrary: n) (auto split: option.splits)

lemma toArray_sound:
  assumes "toArray s r = Some ws" and "w \<in> set ws"
  shows "accepts s r w"
proof -
  let ?P = "\<lambda>st :: string list \<times> (string \<times> nat) list.
              (\<forall>w \<in> set (fst st). accepts s r w) \<and> (\<forall>e \<in> set (snd st). run s r (fst e) = Some (snd e))"
  from assms(1) obtain stack where
    w: "while_option (\<lambda>(words, stack). stack \<noteq> []) (toArray_step s) ([], [([], r)]) = Some (ws, stack)"
    by (auto simp: toArray_def)
  have step: "?P (toArray_step s st)" if inv: "?P st" and ne: "(\<lambda>(words, stack). stack \<noteq> []) st" for st
  proof -
    obtain words p m rest where st: "st = (words, (p, m) # rest)"
      using ne by (cases st; cases "snd st") auto
    have pm: "run s r p = Some m" using inv st by simp
    have kids: "run s r (fst e) = Some (snd e)"
      if "e \<in> set (List.map_filter (\<lambda>edge. map_option (\<lambda>t. (p @ [edge], t)) (edge_target s m edge))
                      (object_keys (edges (nodes s m))))" for e
      using that pm by (auto simp: List.map_filter_def run_append)
    have "accepts s r p" if "final (nodes s m)"
      using that pm by (simp add: accepts_def)
    then show ?thesis
      using inv kids by (auto simp: st toArray_step_def toArray_fold)
  qed
  have "?P (ws, stack)"
    by (rule while_option_rule[where P = ?P, OF step w]) simp_all
  then show ?thesis using assms(2) by simp
qed


lemmas store_ops = new_TokenSet_def set_edge_def set_final_def set_str_def empty_TokenSet_def

lemma toString_leaf:
  "nodes s n = \<lparr>final = True, edges = [], str_cache = []\<rparr> \<Longrightarrow> toString s n = ''1''"
  by (simp add: toString_def object_keys_def)

lemma long_word_split:
  "replicate 209 c @ ''0x'' = replicate 208 c @ (c # ''0x'')"
proof -
  have "replicate 209 c = replicate 208 c @ [c]"
    by (metis numeral_plus_one replicate_append_same replicate_Suc Suc_eq_plus1 semiring_norm(5) add.commute)
  then show ?thesis by simp
qed

lemma long_word_head:
  "replicate 209 c @ ''0x'' = c # (replicate 208 c @ ''0x'')"
proof -
  have "(209::nat) = Suc 208" by simp
  then show ?thesis by (simp only: replicate_Suc append_Cons)
qed

lemma first_word:
  "\<exists>s b. builder_insert ''!'' (fst (new_TokenSetBuilder initial_store))
            (snd (new_TokenSetBuilder initial_store)) = Inr (s, b) \<and>
         nextId s = 3 \<and> nodes s 2 = \<lparr>final = True, edges = [], str_cache = []\<rparr> \<and>
         previousWord b = ''!'' \<and> builder_root b = 1 \<and> uncheckedNodes b = [(1, CHR ''!'', 2)] \<and>
         minimizedNodes b = Map.empty"
  by (simp add: builder_insert_def new_TokenSetBuilder_def initial_store_def store_ops
      minimize_done)


lemma second_word:
  assumes "nextId s = 3" and "nodes s 2 = \<lparr>final = True, edges = [], str_cache = []\<rparr>"
    and "previousWord b = ''!''" and "builder_root b = 1"
    and "uncheckedNodes b = [(1, CHR ''!'', 2)]" and "minimizedNodes b = Map.empty"
  shows "\<exists>s' b' ys. builder_insert (replicate 209 (CHR ''a'') @ ''0x'') s b = Inr (s', b') \<and>
           nextId s' = 214 \<and> builder_root b' = 1 \<and>
           previousWord b' = replicate 209 (CHR ''a'') @ ''0x'' \<and>
           uncheckedNodes b' = ys @ [(210, CHR ''a'', 211), (211, CHR ''0'', 212), (212, CHR ''x'', 213)] \<and>
           (\<forall>e \<in> set ys. fst e < 211) \<and>
           minimizedNodes b' = [''1'' \<mapsto> 2] \<and>
           nodes s' 213 = \<lparr>final = True, edges = [], str_cache = []\<rparr> \<and>
           nodes s' 212 = \<lparr>final = False, edges = [(CHR ''x'', 213)], str_cache = []\<rparr> \<and>
           nodes s' 211 = \<lparr>final = False, edges = [(CHR ''0'', 212)], str_cache = []\<rparr>"
proof -
  let ?s1 = "set_str s 2 ''1''"
  let ?b1 = "b\<lparr>minimizedNodes := (minimizedNodes b)(''1'' \<mapsto> 2),
                uncheckedNodes := butlast (uncheckedNodes b)\<rparr>"
  have key: "toString s 2 = ''1''" by (rule toString_leaf[OF assms(2)])
  have "minimize 0 s b = minimize 0 ?s1 ?b1"
    using minimize_fresh[of 0 b 1 "CHR ''!''" 2 s] assms(5,6) key by simp
  then have m: "minimize 0 s b = (?s1, ?b1)"
    using assms(5) by (simp add: minimize_done)
  obtain sA bA nA where A: "insert_loop (replicate 208 (CHR ''a'')) ?s1 ?b1 1 = (sA, bA, nA)"
    by (metis prod_cases3)
  have "1 < nextId ?s1" using assms(1) by (simp add: set_str_def)
  from insert_loop_frame[OF A this] obtain ys where
    f: "nextId sA = 211" "nA = 210" "nodes sA 210 = empty_TokenSet"
      "minimizedNodes bA = [''1'' \<mapsto> 2]" "builder_root bA = 1"
      "uncheckedNodes bA = ys" "\<forall>e \<in> set ys. fst e < 211"
    using assms by (auto simp: set_str_def)
  have cmp: "\<not> replicate 209 (CHR ''a'') @ ''0x'' < ''!''"
    by (simp add: long_word_head)
  have cp: "commonPrefix (replicate 209 (CHR ''a'') @ ''0x'') ''!'' = 0"
    by (simp add: long_word_head)
  have r: "builder_insert (replicate 209 (CHR ''a'') @ ''0x'') s b =
             (case insert_loop (replicate 209 (CHR ''a'') @ ''0x'') ?s1 ?b1 1 of
                (s2, b2, node') \<Rightarrow>
                  Inr (set_final s2 node' True, b2\<lparr>previousWord := replicate 209 (CHR ''a'') @ ''0x''\<rparr>))"
    by (simp add: builder_insert_def assms(3,4,5) cmp cp m)
  have l: "insert_loop (replicate 209 (CHR ''a'') @ ''0x'') ?s1 ?b1 1 = insert_loop ''a0x'' sA bA nA"
    by (simp only: long_word_split insert_loop_append A prod.case)
  show ?thesis
    unfolding r l using f(7)
    by (simp add: f(1-6) store_ops)
qed


lemma third_word:
  assumes "nextId s = 214" and "builder_root b = 1"
    and "previousWord b = replicate 209 (CHR ''a'') @ ''0x''"
    and "uncheckedNodes b = ys @ [(210, CHR ''a'', 211), (211, CHR ''0'', 212), (212, CHR ''x'', 213)]"
    and "\<forall>e \<in> set ys. fst e < 211"
    and "minimizedNodes b = [''1'' \<mapsto> 2]"
    and "nodes s 213 = \<lparr>final = True, edges = [], str_cache = []\<rparr>"
    and "nodes s 212 = \<lparr>final = False, edges = [(CHR ''x'', 213)], str_cache = []\<rparr>"
    and "nodes s 211 = \<lparr>final = False, edges = [(CHR ''0'', 212)], str_cache = []\<rparr>"
  shows "\<exists>s' b'. builder_insert ''b0'' s b = Inr (s', b') \<and>
           nextId s' = 216 \<and> builder_root b' = 1 \<and> previousWord b' = ''b0'' \<and>
           uncheckedNodes b' = [(1, CHR ''b'', 214), (214, CHR ''0'', 215)] \<and>
           minimizedNodes b' ''1'' = Some 2 \<and> minimizedNodes b' ''00212'' = Some 211 \<and>
           edges (nodes s' 211) = [(CHR ''0'', 212)] \<and> \<not> final (nodes s' 212) \<and>
           nodes s' 215 = \<lparr>final = True, edges = [], str_cache = []\<rparr> \<and>
           nodes s' 214 = \<lparr>final = False, edges = [(CHR ''0'', 215)], str_cache = []\<rparr>"
proof -
  let ?sa = "set_edge s 212 (CHR ''x'') 2"
  let ?ba = "b\<lparr>uncheckedNodes := butlast (uncheckedNodes b)\<rparr>"
  let ?sb = "set_str ?sa 212 (toString ?sa 212)"
  let ?bb = "?ba\<lparr>minimizedNodes := (minimizedNodes ?ba)(toString ?sa 212 \<mapsto> 212),
                uncheckedNodes := butlast (uncheckedNodes ?ba)\<rparr>"
  let ?sc = "set_str ?sb 211 (toString ?sb 211)"
  let ?bc = "?bb\<lparr>minimizedNodes := (minimizedNodes ?bb)(toString ?sb 211 \<mapsto> 211),
                uncheckedNodes := butlast (uncheckedNodes ?bb)\<rparr>"
  have k1: "toString s 213 = ''1''" by (rule toString_leaf[OF assms(7)])
  have k2: "toString ?sa 212 = ''0x2''"
    by (simp add: toString_def set_edge_def assms(8) object_keys_def is_index_key_def
        edge_target_def string_of_nat.simps digit_char_def)
  have k3: "toString ?sb 211 = ''00212''"
    by (simp add: toString_def set_edge_def set_str_def assms(9) object_keys_def is_index_key_def
        edge_target_def string_of_nat.simps digit_char_def)
  have m1: "minimize 0 s b = minimize 0 ?sa ?ba"
    by (rule minimize_found[of 0 b 212 "CHR ''x''" 213 s 2]) (simp_all add: assms(4,6) k1)
  have m2: "minimize 0 ?sa ?ba = minimize 0 ?sb ?bb"
    by (rule minimize_fresh[of 0 ?ba 211 "CHR ''0''" 212 ?sa])
       (simp_all add: assms(4,6) k2 butlast_append)
  have m3: "minimize 0 ?sb ?bb = minimize 0 ?sc ?bc"
    by (rule minimize_fresh[of 0 ?bb 210 "CHR ''a''" 211 ?sb])
       (simp_all add: assms(4,6) k2 k3 k3[unfolded k2] butlast_append)
  obtain s3 b3 where m4: "minimize 0 ?sc ?bc = (s3, b3)" by (metis surj_pair)
  have un: "uncheckedNodes ?bc = ys" by (simp add: assms(4) butlast_append)
  note fr = minimize_frame[OF m4]
  have f: "nextId s3 = 214" "builder_root b3 = 1" "uncheckedNodes b3 = []"
    "previousWord b3 = replicate 209 (CHR ''a'') @ ''0x''"
    using fr assms(1,2,3) by (simp_all add: set_str_def set_edge_def)
  have g1: "minimizedNodes b3 ''1'' = Some 2"
  proof -
    have "minimizedNodes ?bc ''1'' = Some 2" by (simp add: assms(6) k2 k3 k3[unfolded k2])
    with fr show ?thesis by blast
  qed
  have g2: "minimizedNodes b3 ''00212'' = Some 211"
  proof -
    have "minimizedNodes ?bc ''00212'' = Some 211" by (simp add: k2 k3 k3[unfolded k2])
    with fr show ?thesis by blast
  qed
  have g3: "final (nodes s3 212) = False"
  proof -
    have "final (nodes s3 212) = final (nodes ?sc 212)" using fr by blast
    then show ?thesis by (simp add: set_str_def set_edge_def assms(8))
  qed
  have g4: "edges (nodes s3 211) = [(CHR ''0'', 212)]"
  proof -
    have "\<forall>e \<in> set (drop 0 (uncheckedNodes ?bc)). fst e \<noteq> 211"
      unfolding un using assms(5) by auto
    with fr have "edges (nodes s3 211) = edges (nodes ?sc 211)" by blast
    then show ?thesis by (simp add: set_str_def set_edge_def assms(9))
  qed
  have m: "minimize 0 s b = (s3, b3)" by (simp only: m1 m2 m3 m4)
  have cmp: "\<not> ''b0'' < replicate 209 (CHR ''a'') @ ''0x''"
    by (simp add: long_word_head)
  have cp: "commonPrefix ''b0'' (replicate 209 (CHR ''a'') @ ''0x'') = 0"
    by (simp add: long_word_head)
  show ?thesis
    by (simp add: builder_insert_def assms(3) cmp cp m f g1 g2 g3 g4 store_ops)
qed


lemma fourth_word_and_finish:
  assumes "nextId s = 216" and "builder_root b = 1" and "previousWord b = ''b0''"
    and "uncheckedNodes b = [(1, CHR ''b'', 214), (214, CHR ''0'', 215)]"
    and "minimizedNodes b ''1'' = Some 2" and "minimizedNodes b ''00212'' = Some 211"
    and "edges (nodes s 211) = [(CHR ''0'', 212)]" and "\<not> final (nodes s 212)"
    and "nodes s 215 = \<lparr>final = True, edges = [], str_cache = []\<rparr>"
    and "nodes s 214 = \<lparr>final = False, edges = [(CHR ''0'', 215)], str_cache = []\<rparr>"
  shows "\<exists>s1 b1 s' b'. builder_insert ''b1'' s b = Inr (s1, b1) \<and> finish s1 b1 = (s', b') \<and>
           builder_root b' = 1 \<and> edge_target s' 1 (CHR ''b'') = Some 211 \<and>
           edge_target s' 211 (CHR ''0'') = Some 212 \<and> \<not> final (nodes s' 212)"
proof -
  let ?sa = "set_edge s 214 (CHR ''0'') 2"
  let ?ba = "b\<lparr>uncheckedNodes := butlast (uncheckedNodes b)\<rparr>"
  have k1: "toString s 215 = ''1''" by (rule toString_leaf[OF assms(9)])
  have "minimize 1 s b = minimize 1 ?sa ?ba"
    by (rule minimize_found[of 1 b 214 "CHR ''0''" 215 s 2]) (simp_all add: assms(4,5) k1)
  then have m: "minimize 1 s b = (?sa, ?ba)"
    by (simp add: minimize_done assms(4))
  let ?s1 = "set_final (set_edge (fst (new_TokenSet ?sa)) 214 (CHR ''1'') 216) 216 True"
  let ?b1 = "b\<lparr>uncheckedNodes := [(1, CHR ''b'', 214), (214, CHR ''1'', 216)], previousWord := ''b1''\<rparr>"
  have ins: "builder_insert ''b1'' s b = Inr (?s1, ?b1)"
    by (simp add: builder_insert_def assms(1,3,4) m[unfolded One_nat_def] new_TokenSet_def set_edge_def)
  let ?sb = "set_edge ?s1 214 (CHR ''1'') 2"
  let ?bb = "?b1\<lparr>uncheckedNodes := butlast (uncheckedNodes ?b1)\<rparr>"
  have k2: "toString ?s1 216 = ''1''"
    by (rule toString_leaf) (simp add: store_ops assms(1))
  have f1: "minimize 0 ?s1 ?b1 = minimize 0 ?sb ?bb"
    by (rule minimize_found[of 0 ?b1 214 "CHR ''1''" 216 ?s1 2]) (simp_all add: assms(5) k2)
  have n214: "nodes ?sb 214 = \<lparr>final = False, edges = [(CHR ''0'', 2), (CHR ''1'', 2)], str_cache = []\<rparr>"
    by (simp add: store_ops assms(1,10))
  have k3: "toString ?sb 214 = ''00212''"
    by (simp add: toString_def n214 object_keys_def is_index_key_def edge_target_def
        string_of_nat.simps digit_char_def)
  let ?sc = "set_edge ?sb 1 (CHR ''b'') 211"
  let ?bc = "?bb\<lparr>uncheckedNodes := butlast (uncheckedNodes ?bb)\<rparr>"
  have f2: "minimize 0 ?sb ?bb = minimize 0 ?sc ?bc"
    by (rule minimize_found[of 0 ?bb 1 "CHR ''b''" 214 ?sb 211]) (simp_all add: assms(6) k3)
  have f3: "minimize 0 ?sc ?bc = (?sc, ?bc)"
    by (simp add: minimize_done)
  have fin: "finish ?s1 ?b1 = (?sc, ?bc)"
    by (simp only: finish_def f1 f2 f3)
  have e1: "edge_target ?sc 1 (CHR ''b'') = Some 211"
    by (simp add: edge_target_def set_edge_def map_of_update_edge)
  have e2: "edge_target ?sc 211 (CHR ''0'') = Some 212"
    by (simp add: edge_target_def store_ops assms(1,7))
  have e3: "\<not> final (nodes ?sc 212)"
    by (simp add: store_ops assms(1,8))
  have r: "builder_root ?bc = 1" by (simp add: assms(2))
  show ?thesis using ins fin r e1 e2 e3 by blast
qed


lemma sorted_failing_vocabulary:
  "sorted [''!'', replicate 209 (CHR ''a'') @ ''0x'', ''b0'', ''b1'']"
  by (simp add: long_word_head)

text \<open>
  C3 at its failing input, the sorted vocabulary of the four words \<^verbatim>\<open>!\<close>, 209 times \<^verbatim>\<open>a\<close>
  followed by \<^verbatim>\<open>0x\<close>, \<^verbatim>\<open>b0\<close> and \<^verbatim>\<open>b1\<close>, in a fresh process. The node reached after the
  209 \<^verbatim>\<open>a\<close> is node 211, with the one edge \<^verbatim>\<open>0\<close> to node 212: its key is \<^verbatim>\<open>00212\<close>. The node
  reached by \<^verbatim>\<open>b\<close> has the edges \<^verbatim>\<open>0\<close> and \<^verbatim>\<open>1\<close>, both to the minimised leaf 2: its key is
  \<^verbatim>\<open>00212\<close> too, so \<^verbatim>\<open>finish\<close> replaces it by node 211. The token set that \<^verbatim>\<open>fromArray\<close>
  returns does not accept \<^verbatim>\<open>b0\<close>, and no result of \<^verbatim>\<open>toArray\<close> holds it.
\<close>

theorem fromArray_loses_word:
  "sorted [''!'', replicate 209 (CHR ''a'') @ ''0x'', ''b0'', ''b1''] \<and>
   (\<exists>s r. fromArray initial_store [''!'', replicate 209 (CHR ''a'') @ ''0x'', ''b0'', ''b1'']
            = Inr (s, r) \<and>
          \<not> accepts s r ''b0'' \<and>
          (\<nexists>ws. toArray s r = Some ws \<and> ''b0'' \<in> set ws))"
proof -
  let ?s0 = "fst (new_TokenSetBuilder initial_store)"
  let ?b0 = "snd (new_TokenSetBuilder initial_store)"
  from first_word obtain s1 b1 where
    i1: "builder_insert ''!'' ?s0 ?b0 = Inr (s1, b1)"
    and p1: "nextId s1 = 3" "nodes s1 2 = \<lparr>final = True, edges = [], str_cache = []\<rparr>"
      "previousWord b1 = ''!''" "builder_root b1 = 1" "uncheckedNodes b1 = [(1, CHR ''!'', 2)]"
      "minimizedNodes b1 = Map.empty"
    by blast
  from second_word[OF p1] obtain s2 b2 ys where
    i2: "builder_insert (replicate 209 (CHR ''a'') @ ''0x'') s1 b1 = Inr (s2, b2)"
    and p2: "nextId s2 = 214" "builder_root b2 = 1"
      "previousWord b2 = replicate 209 (CHR ''a'') @ ''0x''"
      "uncheckedNodes b2 = ys @ [(210, CHR ''a'', 211), (211, CHR ''0'', 212), (212, CHR ''x'', 213)]"
      "\<forall>e \<in> set ys. fst e < 211"
      "minimizedNodes b2 = [''1'' \<mapsto> 2]"
      "nodes s2 213 = \<lparr>final = True, edges = [], str_cache = []\<rparr>"
      "nodes s2 212 = \<lparr>final = False, edges = [(CHR ''x'', 213)], str_cache = []\<rparr>"
      "nodes s2 211 = \<lparr>final = False, edges = [(CHR ''0'', 212)], str_cache = []\<rparr>"
    by blast
  from third_word[OF p2] obtain s3 b3 where
    i3: "builder_insert ''b0'' s2 b2 = Inr (s3, b3)"
    and p3: "nextId s3 = 216" "builder_root b3 = 1" "previousWord b3 = ''b0''"
      "uncheckedNodes b3 = [(1, CHR ''b'', 214), (214, CHR ''0'', 215)]"
      "minimizedNodes b3 ''1'' = Some 2" "minimizedNodes b3 ''00212'' = Some 211"
      "edges (nodes s3 211) = [(CHR ''0'', 212)]" "\<not> final (nodes s3 212)"
      "nodes s3 215 = \<lparr>final = True, edges = [], str_cache = []\<rparr>"
      "nodes s3 214 = \<lparr>final = False, edges = [(CHR ''0'', 215)], str_cache = []\<rparr>"
    by blast
  from fourth_word_and_finish[OF p3] obtain s4 b4 s5 b5 where
    i4: "builder_insert ''b1'' s3 b3 = Inr (s4, b4)"
    and fin: "finish s4 b4 = (s5, b5)"
    and p5: "builder_root b5 = 1" "edge_target s5 1 (CHR ''b'') = Some 211"
      "edge_target s5 211 (CHR ''0'') = Some 212" "\<not> final (nodes s5 212)"
    by blast
  have "insert_all [''!'', replicate 209 (CHR ''a'') @ ''0x'', ''b0'', ''b1''] ?s0 ?b0 = Inr (s4, b4)"
    by (simp add: i1 i2 i3 i4)
  then have build:
    "fromArray initial_store [''!'', replicate 209 (CHR ''a'') @ ''0x'', ''b0'', ''b1''] = Inr (s5, 1)"
    by (simp add: fromArray_def split_beta fin p5(1)[unfolded One_nat_def])
  have rej: "\<not> accepts s5 1 ''b0''"
    by (simp add: accepts_def p5[unfolded One_nat_def])
  then have "\<nexists>ws. toArray s5 1 = Some ws \<and> ''b0'' \<in> set ws"
    using toArray_sound by blast
  with build rej sorted_failing_vocabulary show ?thesis by blast
qed

section \<open>Intersection at the empty word\<close>

text \<open>
  C1 fails at the vocabulary \<^verbatim>\<open>['']\<close> and the pattern \<^verbatim>\<open>*\<close>: the pattern matches the empty
  word, which is the one word of the vocabulary, and \<^verbatim>\<open>fromArray([''])\<close> lists it, but the
  intersection lists nothing, because \<^verbatim>\<open>intersect\<close> never sets the finality of its output root.
\<close>

theorem intersect_loses_empty_word:
  "sorted [[] :: string] \<and> pattern_matches ''*'' [] \<and>
   (case fromArray initial_store [[]] of
      Inl e \<Rightarrow> None
    | Inr (s, a) \<Rightarrow> toArray s a) = Some [[]] \<and>
   (case fromArray initial_store [[]] of
      Inl e \<Rightarrow> None
    | Inr (s, a) \<Rightarrow>
        (case fromString s ''*'' of (s1, b) \<Rightarrow>
           (case intersect s1 a b of
              None \<Rightarrow> None
            | Some (s2, out) \<Rightarrow> toArray s2 out))) = Some []"
  by code_simp

section \<open>Document references that name members of \<^verbatim>\<open>Object.prototype\<close>\<close>

lemma similarity_unit_query: "similarity [0, 1] [0, x] = x"
  by (simp add: similarity_def dot_def dot_loop.simps magnitude_def)

lemma similarity_empty_query: "similarity [] v = 0"
  by (simp add: similarity_def dot_def dot_loop.simps magnitude_def)

text \<open>
  C8 at its failing input. The index holds the one document
  \<^verbatim>\<open>{id: 'constructor', title: 'word'}\<close>, with the field \<^verbatim>\<open>title\<close>; the query is
  \<^verbatim>\<open>search('word')\<close>. When \<^verbatim>\<open>query\<close> reaches its last loop, \<^verbatim>\<open>matchingFields\<close> has the one
  key \<^verbatim>\<open>title/constructor\<close>, the query vector of \<^verbatim>\<open>title\<close> is \<^verbatim>\<open>[0, 1]\<close>, the field vector is
  \<^verbatim>\<open>[0, 0.288]\<close>, and no clause is required or prohibited. The loop raises a \<^verbatim>\<open>TypeError\<close>; for
  the same document under the reference \<^verbatim>\<open>doc\<close> it returns that document.
\<close>

theorem query_fails_on_prototype_member_ref:
  "query_results [(''title/constructor'', [0, 0.288])] [(''title'', [0, 1])]
       [(''title/constructor'', [(''word'', [(''title'', [] :: (string \<times> nat list) list)])])]
       completeLunrSet emptyLunrSet (isNegated [OPTIONAL])
     = Inl TypeError \<and>
   query_results [(''title/doc'', [0, 0.288])] [(''title'', [0, 1])]
       [(''title/doc'', [(''word'', [(''title'', [] :: (string \<times> nat list) list)])])]
       completeLunrSet emptyLunrSet (isNegated [OPTIONAL])
     = Inr [\<lparr>ref = ''doc'', score = 0.288, matchData = [(''word'', [(''title'', [])])]\<rparr>]"
  by (simp add: query_results_def collect_field_def FieldRef_fromString_def get_property_def
      object_prototype_members_def own_or_def similarity_unit_query)

text \<open>
  C4 at its failing input. The index holds the documents \<^verbatim>\<open>{id: 'a', title: 'foo'}\<close> and
  \<^verbatim>\<open>{id: 'constructor', title: 'bar'}\<close>; the query is \<^verbatim>\<open>search('-foo')\<close>, whose one clause is
  prohibited. Before the last loop of \<^verbatim>\<open>query\<close> the set of prohibited documents is
  \<^verbatim>\<open>new LunrSet(['a'])\<close>, no document is required and the query vector is empty. The
  document \<^verbatim>\<open>constructor\<close> has no prohibited match, yet it is not returned: the result is empty,
  because \<^verbatim>\<open>contains('constructor')\<close> holds of every \<^verbatim>\<open>LunrSet\<close> that is not the empty
  sentinel. For the same document under the reference \<^verbatim>\<open>b\<close> the result is that document, with
  score 0.
\<close>

theorem negated_query_drops_prototype_member_ref:
  "isNegated [PROHIBITED] \<and>
   contains (new_LunrSet [''a'']) ''constructor'' \<and>
   query_results [(''title/a'', [0, 0.693]), (''title/constructor'', [1, 0.693])] [(''title'', [])]
       ([] :: (string \<times> nat metadata) list)
       completeLunrSet (set_union emptyLunrSet (new_LunrSet [''a''])) (isNegated [PROHIBITED])
     = Inr [] \<and>
   query_results [(''title/a'', [0, 0.693]), (''title/b'', [1, 0.693])] [(''title'', [])]
       ([] :: (string \<times> nat metadata) list)
       completeLunrSet (set_union emptyLunrSet (new_LunrSet [''a''])) (isNegated [PROHIBITED])
     = Inr [\<lparr>ref = ''b'', score = 0, matchData = []\<rparr>]"
  by (simp add: query_results_def collect_field_def FieldRef_fromString_def get_property_def
      has_property_def new_LunrSet_def object_prototype_members_def own_or_def
      similarity_empty_query)

section \<open>Average field lengths\<close>

lemma map_of_update_property: "map_of (update_property k v obj) = (map_of obj)(k \<mapsto> v)"
  by (induction obj) (auto simp: fun_upd_twist)

lemma update_property_fresh:
  "k \<notin> fst ` set obj \<Longrightarrow> update_property k v obj = obj @ [(k, v)]"
  by (induction obj) auto

lemma update_property_last:
  "k \<notin> fst ` set obj \<Longrightarrow> update_property k v (obj @ [(k, w)]) = obj @ [(k, v)]"
  by (induction obj) auto

lemma indexOf_append: "c \<notin> set f \<Longrightarrow> indexOf (f @ c # r) c = Some (length f)"
  by (induction f) auto

lemma indexOf_split: "indexOf k c = Some n \<Longrightarrow> take n k @ c # drop (Suc n) k = k"
proof (induction k arbitrary: n)
  case Nil
  then show ?case by simp
next
  case (Cons x xs)
  then show ?case by (cases "x = c") auto
qed

lemma fromString_toString:
  "CHR ''/'' \<notin> set f \<Longrightarrow> FieldRef_fromString (FieldRef_toString (r, f)) = Inr (r, f)"
  by (simp add: FieldRef_fromString_def FieldRef_toString_def indexOf_append)

lemma toString_fromString:
  "FieldRef_fromString k = Inr (r, f) \<Longrightarrow> FieldRef_toString (r, f) = k"
  by (auto simp: FieldRef_fromString_def FieldRef_toString_def indexOf_split split: option.splits)

lemma toString_inj:
  assumes "CHR ''/'' \<notin> set f" and "CHR ''/'' \<notin> set f'"
    and "FieldRef_toString (r, f) = FieldRef_toString (r', f')"
  shows "r = r' \<and> f = f'"
proof -
  have "FieldRef_fromString (FieldRef_toString (r, f)) = Inr (r', f')"
    unfolding assms(3) by (rule fromString_toString[OF assms(2)])
  with fromString_toString[OF assms(1), of r] show ?thesis by simp
qed

lemma get_property_plain:
  "g \<notin> set object_prototype_members \<Longrightarrow>
   get_property obj g = (case map_of obj g of None \<Rightarrow> Undefined | Some v \<Rightarrow> Own v)"
  by (simp add: get_property_def split: option.splits)

lemma or_zero_other: "f \<noteq> g \<Longrightarrow> map_of (or_zero obj f) g = map_of obj g"
  by (simp add: or_zero_def map_of_update_property)

lemma plus_assign_other: "f \<noteq> g \<Longrightarrow> map_of (plus_assign obj f n) g = map_of obj g"
  by (simp add: plus_assign_def map_of_update_property)

lemma count_step:
  assumes "g \<notin> set object_prototype_members"
    and "map_of obj g = (if n0 = (0::nat) then None else Some (Number s0))"
    and "n0 = 0 \<longrightarrow> s0 = 0"
  shows "map_of (plus_assign (or_zero obj g) g x) g = Some (Number (s0 + x))"
  using assms
  by (auto simp: plus_assign_def or_zero_def map_of_update_property get_property_plain truthy_def)

lemma accumulate_fields_spec:
  assumes "g \<notin> set object_prototype_members"
    and "\<forall>k \<in> set keys. \<exists>r f. FieldRef_fromString k = Inr (r, f)"
    and "map_of acc g = (if n0 = (0::nat) then None else Some (Number s0))"
    and "map_of cnt g = (if n0 = 0 then None else Some (Number (real n0)))"
    and "n0 = 0 \<longrightarrow> s0 = 0"
  shows "\<exists>acc' cnt'. accumulate_fields lengths keys (acc, cnt) = Inr (acc', cnt') \<and>
           map_of acc' g =
             (if n0 + length (filter (\<lambda>k. \<exists>r. FieldRef_fromString k = Inr (r, g)) keys) = 0 then None
              else Some (Number (s0 + sum_list (map (own_or 0 lengths)
                           (filter (\<lambda>k. \<exists>r. FieldRef_fromString k = Inr (r, g)) keys))))) \<and>
           map_of cnt' g =
             (if n0 + length (filter (\<lambda>k. \<exists>r. FieldRef_fromString k = Inr (r, g)) keys) = 0 then None
              else Some (Number (real (n0 + length (filter (\<lambda>k. \<exists>r. FieldRef_fromString k = Inr (r, g)) keys)))))"
  using assms(2-)
proof (induction keys arbitrary: acc cnt n0 s0)
  case Nil
  then show ?case by simp
next
  case (Cons k keys)
  from Cons.prems(1) obtain r f where kf: "FieldRef_fromString k = Inr (r, f)" by auto
  have ts: "FieldRef_toString (r, f) = k" by (rule toString_fromString[OF kf])
  let ?acc = "plus_assign (or_zero acc f) f (own_or 0 lengths k)"
  let ?cnt = "plus_assign (or_zero cnt f) f 1"
  have step: "accumulate_field lengths (acc, cnt) k = Inr (?acc, ?cnt)"
    by (simp add: accumulate_field_def kf ts)
  have rest: "\<forall>k \<in> set keys. \<exists>r f. FieldRef_fromString k = Inr (r, f)"
    using Cons.prems(1) by simp
  show ?case
  proof (cases "f = g")
    case True
    have a: "map_of ?acc g = (if Suc n0 = 0 then None else Some (Number (s0 + own_or 0 lengths k)))"
      using count_step[OF assms(1) Cons.prems(2) Cons.prems(4)] True by simp
    have "map_of ?cnt g = Some (Number (real n0 + 1))"
      using count_step[OF assms(1) Cons.prems(3), of 1] True by simp
    then have c: "map_of ?cnt g = (if Suc n0 = 0 then None else Some (Number (real (Suc n0))))"
      by (simp add: add.commute)
    from Cons.IH[OF rest a c] obtain acc' cnt' where
      "accumulate_fields lengths keys (?acc, ?cnt) = Inr (acc', cnt')"
      "map_of acc' g = (if Suc n0 + length (filter (\<lambda>k. \<exists>r. FieldRef_fromString k = Inr (r, g)) keys) = 0 then None
              else Some (Number (s0 + own_or 0 lengths k + sum_list (map (own_or 0 lengths)
                           (filter (\<lambda>k. \<exists>r. FieldRef_fromString k = Inr (r, g)) keys)))))"
      "map_of cnt' g = (if Suc n0 + length (filter (\<lambda>k. \<exists>r. FieldRef_fromString k = Inr (r, g)) keys) = 0 then None
              else Some (Number (real (Suc n0 + length (filter (\<lambda>k. \<exists>r. FieldRef_fromString k = Inr (r, g)) keys)))))"
      by auto
    with True kf step show ?thesis
      by (auto simp: add.assoc)
  next
    case False
    have a: "map_of ?acc g = (if n0 = 0 then None else Some (Number s0))"
      using False Cons.prems(2) by (simp add: plus_assign_other or_zero_other)
    have c: "map_of ?cnt g = (if n0 = 0 then None else Some (Number (real n0)))"
      using False Cons.prems(3) by (simp add: plus_assign_other or_zero_other)
    from Cons.IH[OF rest a c Cons.prems(4)] obtain acc' cnt' where
      "accumulate_fields lengths keys (?acc, ?cnt) = Inr (acc', cnt')"
      "map_of acc' g = (if n0 + length (filter (\<lambda>k. \<exists>r. FieldRef_fromString k = Inr (r, g)) keys) = 0 then None
              else Some (Number (s0 + sum_list (map (own_or 0 lengths)
                           (filter (\<lambda>k. \<exists>r. FieldRef_fromString k = Inr (r, g)) keys)))))"
      "map_of cnt' g = (if n0 + length (filter (\<lambda>k. \<exists>r. FieldRef_fromString k = Inr (r, g)) keys) = 0 then None
              else Some (Number (real (n0 + length (filter (\<lambda>k. \<exists>r. FieldRef_fromString k = Inr (r, g)) keys)))))"
      by auto
    with False kf step show ?thesis
      by auto
  qed
qed

lemma divide_loop_other:
  "g \<notin> set names \<Longrightarrow>
   map_of (foldl (\<lambda>acc fieldName. update_property fieldName
                    (divide_values (get_property acc fieldName) (get_property cnt fieldName)) acc)
                 acc names) g = map_of acc g"
  by (induction names arbitrary: acc) (auto simp: map_of_update_property)

lemma divide_loop:
  "distinct names \<Longrightarrow> g \<in> set names \<Longrightarrow>
   map_of (foldl (\<lambda>acc fieldName. update_property fieldName
                    (divide_values (get_property acc fieldName) (get_property cnt fieldName)) acc)
                 acc names) g = Some (divide_values (get_property acc g) (get_property cnt g))"
proof (induction names arbitrary: acc)
  case Nil
  then show ?case by simp
next
  case (Cons n names)
  show ?case
  proof (cases "n = g")
    case True
    with Cons.prems have "g \<notin> set names" by simp
    from divide_loop_other[OF this] True show ?thesis by (simp add: map_of_update_property)
  next
    case False
    with Cons.prems have "distinct names" "g \<in> set names" by auto
    from Cons.IH[OF this] False show ?thesis
      by (simp add: get_property_def map_of_update_property)
  qed
qed


lemma map_distinct_neq:
  assumes "distinct (map h (x # xs))" and "y \<in> set xs"
  shows "h y \<noteq> h x"
proof
  assume "h y = h x"
  then have "h x \<in> h ` set xs" using assms(2) by (metis imageI)
  with assms(1) show False by simp
qed

lemma field_terms_pipeline:
  "pipeline b = pipeline b' \<Longrightarrow> field_terms b doc fe = field_terms b' doc fe"
  by (simp add: field_terms_def split: prod.splits)

lemma add_field_fresh:
  assumes "FieldRef_toString (docRef_string (doc (builder_ref b)), fst fe) \<notin> fst ` set (fieldLengths b)"
  shows "add_field doc b fe =
           b\<lparr>fieldLengths := fieldLengths b @
               [(FieldRef_toString (docRef_string (doc (builder_ref b)), fst fe),
                 real (length (field_terms b doc fe)))]\<rparr>"
  using assms
  by (cases fe) (simp add: add_field_def Let_def update_property_fresh update_property_last)

lemma foldl_add_field:
  assumes "distinct (map fst fs)"
    and "\<forall>f \<in> fst ` set fs. CHR ''/'' \<notin> set f"
    and "\<forall>fe \<in> set fs. FieldRef_toString (docRef_string (doc (builder_ref b)), fst fe)
                          \<notin> fst ` set (fieldLengths b)"
  shows "foldl (add_field doc) b fs =
           b\<lparr>fieldLengths := fieldLengths b @
               map (\<lambda>fe. (FieldRef_toString (docRef_string (doc (builder_ref b)), fst fe),
                          real (length (field_terms b doc fe)))) fs\<rparr>"
  using assms
proof (induction fs arbitrary: b)
  case Nil
  then show ?case by simp
next
  case (Cons fe fs)
  let ?key = "\<lambda>fe. FieldRef_toString (docRef_string (doc (builder_ref b)), fst fe)"
  let ?b = "b\<lparr>fieldLengths := fieldLengths b @ [(?key fe, real (length (field_terms b doc fe)))]\<rparr>"
  have step: "add_field doc b fe = ?b"
    using Cons.prems(3) by (intro add_field_fresh) simp
  have fresh: "\<forall>fe' \<in> set fs. FieldRef_toString (docRef_string (doc (builder_ref ?b)), fst fe')
                  \<notin> fst ` set (fieldLengths ?b)"
  proof
    fix fe' assume in_fs: "fe' \<in> set fs"
    then have "fst fe' \<noteq> fst fe" using Cons.prems(1) by (intro map_distinct_neq)
    moreover have "CHR ''/'' \<notin> set (fst fe')" "CHR ''/'' \<notin> set (fst fe)"
      using Cons.prems(2) in_fs by auto
    ultimately have "?key fe' \<noteq> ?key fe"
      using toString_inj by blast
    moreover have "?key fe' \<notin> fst ` set (fieldLengths b)"
      using Cons.prems(3) in_fs by simp
    ultimately show "FieldRef_toString (docRef_string (doc (builder_ref ?b)), fst fe')
                       \<notin> fst ` set (fieldLengths ?b)"
      by simp
  qed
  have d: "distinct (map fst fs)" and sl: "\<forall>f \<in> fst ` set fs. CHR ''/'' \<notin> set f"
    using Cons.prems(1,2) by auto
  have ft: "\<And>fe'. field_terms ?b doc fe' = field_terms b doc fe'"
    by (rule field_terms_pipeline) simp
  show ?case
    by (simp add: step Cons.IH[OF d sl fresh] ft)
qed

lemma add_spec:
  assumes "distinct (map fst (builder_fields b))"
    and "\<forall>f \<in> fst ` set (builder_fields b). CHR ''/'' \<notin> set f"
    and "\<forall>fe \<in> set (builder_fields b). FieldRef_toString (docRef_string (doc (builder_ref b)), fst fe)
                          \<notin> fst ` set (fieldLengths b)"
  shows "add b doc =
           b\<lparr>documentCount := documentCount b + 1,
             fieldLengths := fieldLengths b @
               map (\<lambda>fe. (FieldRef_toString (docRef_string (doc (builder_ref b)), fst fe),
                          real (length (field_terms b doc fe)))) (builder_fields b)\<rparr>"
proof -
  let ?b = "b\<lparr>documentCount := documentCount b + 1\<rparr>"
  have ft: "\<And>n fe'. field_terms (b\<lparr>documentCount := n\<rparr>) doc fe' = field_terms b doc fe'"
    by (rule field_terms_pipeline) simp
  have "foldl (add_field doc) ?b (builder_fields b) =
           ?b\<lparr>fieldLengths := fieldLengths ?b @
               map (\<lambda>fe. (FieldRef_toString (docRef_string (doc (builder_ref ?b)), fst fe),
                          real (length (field_terms ?b doc fe)))) (builder_fields b)\<rparr>"
    using assms by (intro foldl_add_field) simp_all
  then show ?thesis by (simp add: add_def ft)
qed

lemma foldl_add_spec:
  assumes "distinct (map fst (builder_fields b))"
    and "\<forall>f \<in> fst ` set (builder_fields b). CHR ''/'' \<notin> set f"
    and "distinct (map (\<lambda>doc. docRef_string (doc (builder_ref b))) docs)"
    and "\<forall>doc \<in> set docs. \<forall>fe \<in> set (builder_fields b).
            FieldRef_toString (docRef_string (doc (builder_ref b)), fst fe) \<notin> fst ` set (fieldLengths b)"
  shows "foldl add b docs =
           b\<lparr>documentCount := documentCount b + length docs,
             fieldLengths := fieldLengths b @
               concat (map (\<lambda>doc. map (\<lambda>fe. (FieldRef_toString (docRef_string (doc (builder_ref b)), fst fe),
                          real (length (field_terms b doc fe)))) (builder_fields b)) docs)\<rparr>"
  using assms
proof (induction docs arbitrary: b)
  case Nil
  then show ?case by simp
next
  case (Cons doc docs)
  let ?key = "\<lambda>doc fe. FieldRef_toString (docRef_string (doc (builder_ref b)), fst fe)"
  let ?b = "b\<lparr>documentCount := documentCount b + 1,
             fieldLengths := fieldLengths b @
               map (\<lambda>fe. (?key doc fe, real (length (field_terms b doc fe)))) (builder_fields b)\<rparr>"
  have step: "add b doc = ?b"
    using Cons.prems by (intro add_spec) simp_all
  have fresh: "\<forall>doc' \<in> set docs. \<forall>fe \<in> set (builder_fields ?b).
            FieldRef_toString (docRef_string (doc' (builder_ref ?b)), fst fe) \<notin> fst ` set (fieldLengths ?b)"
  proof (intro ballI)
    fix doc' fe assume in_docs: "doc' \<in> set docs" and in_fs: "fe \<in> set (builder_fields ?b)"
    have ref: "docRef_string (doc' (builder_ref b)) \<noteq> docRef_string (doc (builder_ref b))"
      using map_distinct_neq[OF Cons.prems(3) in_docs] .
    have sl: "CHR ''/'' \<notin> set (fst fe)" using Cons.prems(2) in_fs by auto
    have "?key doc' fe \<noteq> ?key doc fe'" if "fe' \<in> set (builder_fields b)" for fe'
    proof -
      have "CHR ''/'' \<notin> set (fst fe')" using Cons.prems(2) that by auto
      with sl ref show ?thesis using toString_inj by blast
    qed
    then have k1: "?key doc' fe \<notin> (\<lambda>fe'. ?key doc fe') ` set (builder_fields b)"
      by blast
    have k2: "?key doc' fe \<notin> fst ` set (fieldLengths b)"
      using Cons.prems(4) in_docs in_fs by simp
    have "fst ` set (fieldLengths ?b) =
            fst ` set (fieldLengths b) \<union> (\<lambda>fe'. ?key doc fe') ` set (builder_fields b)"
      by (simp add: image_Un image_image)
    with k1 k2 show "FieldRef_toString (docRef_string (doc' (builder_ref ?b)), fst fe)
                       \<notin> fst ` set (fieldLengths ?b)"
      by simp
  qed
  have ft: "\<And>n l doc' fe'. field_terms (b\<lparr>documentCount := n, fieldLengths := l\<rparr>) doc' fe'
                  = field_terms b doc' fe'"
    by (rule field_terms_pipeline) simp
  have d: "distinct (map fst (builder_fields ?b))"
    and sl: "\<forall>f \<in> fst ` set (builder_fields ?b). CHR ''/'' \<notin> set f"
    and dr: "distinct (map (\<lambda>doc. docRef_string (doc (builder_ref ?b))) docs)"
    using Cons.prems(1,2,3) by auto
  have "foldl add b (doc # docs) = foldl add ?b docs"
    by (simp only: foldl_Cons step)
  then show ?case
    by (simp only: Cons.IH[OF d sl dr fresh]) (simp add: ft)
qed


lemma keys_distinct:
  assumes "distinct (map fst fs)"
    and "\<forall>f \<in> fst ` set fs. CHR ''/'' \<notin> set f"
    and "distinct (map rf docs)"
  shows "distinct (concat (map (\<lambda>doc. map (\<lambda>fe. FieldRef_toString (rf doc, fst fe)) fs) docs))"
  using assms(3)
proof (induction docs)
  case Nil
  then show ?case by simp
next
  case (Cons doc docs)
  have inj: "inj_on (\<lambda>fe. FieldRef_toString (rf doc, fst fe)) (set fs)"
  proof (rule inj_onI)
    fix x y assume x: "x \<in> set fs" and y: "y \<in> set fs"
      and eq: "FieldRef_toString (rf doc, fst x) = FieldRef_toString (rf doc, fst y)"
    have "CHR ''/'' \<notin> set (fst x)" "CHR ''/'' \<notin> set (fst y)" using assms(2) x y by auto
    from toString_inj[OF this eq] have "fst x = fst y" by simp
    with assms(1) x y show "x = y" by (simp add: distinct_map inj_on_def)
  qed
  have block: "distinct (map (\<lambda>fe. FieldRef_toString (rf doc, fst fe)) fs)"
    using assms(1) inj by (simp add: distinct_map)
  have disjoint: "FieldRef_toString (rf doc, fst fe) \<noteq> FieldRef_toString (rf doc', fst fe')"
    if "fe \<in> set fs" "fe' \<in> set fs" "doc' \<in> set docs" for fe fe' doc'
  proof -
    have "rf doc' \<noteq> rf doc" using map_distinct_neq[OF Cons.prems that(3)] .
    moreover have "CHR ''/'' \<notin> set (fst fe)" "CHR ''/'' \<notin> set (fst fe')"
      using assms(2) that by auto
    ultimately show ?thesis using toString_inj by metis
  qed
  from Cons.prems have "distinct (map rf docs)" by simp
  with Cons.IH block disjoint show ?case by auto
qed

lemma filter_field:
  assumes "distinct (map fst fs)" and "(f, e) \<in> set fs"
  shows "filter (\<lambda>fe. fst fe = f) fs = [(f, e)]"
  using assms
proof (induction fs)
  case Nil
  then show ?case by simp
next
  case (Cons x fs)
  show ?case
  proof (cases "x = (f, e)")
    case True
    with Cons.prems(1) have "\<forall>fe \<in> set fs. fst fe \<noteq> f" by force
    then have "filter (\<lambda>fe. fst fe = f) fs = []" by (simp add: filter_empty_conv)
    with True show ?thesis by simp
  next
    case False
    with Cons.prems have in_fs: "(f, e) \<in> set fs" by simp
    have "fst (f, e) \<noteq> fst x" using map_distinct_neq[OF Cons.prems(1) in_fs] .
    then have "fst x \<noteq> f" by auto
    with Cons.IH in_fs Cons.prems(1) show ?thesis by simp
  qed
qed

lemma field_keys:
  assumes "distinct (map fst fs)"
    and "\<forall>f \<in> fst ` set fs. CHR ''/'' \<notin> set f"
    and "(f, e) \<in> set fs"
  shows "filter (\<lambda>k. \<exists>r. FieldRef_fromString k = Inr (r, f))
           (concat (map (\<lambda>doc. map (\<lambda>fe. FieldRef_toString (rf doc, fst fe)) fs) docs))
         = map (\<lambda>doc. FieldRef_toString (rf doc, f)) docs"
proof -
  have one: "filter (\<lambda>k. \<exists>r. FieldRef_fromString k = Inr (r, f))
               (map (\<lambda>fe. FieldRef_toString (rf doc, fst fe)) fs) = [FieldRef_toString (rf doc, f)]"
    for doc
  proof -
    have "filter ((\<lambda>k. \<exists>r. FieldRef_fromString k = Inr (r, f)) \<circ> (\<lambda>fe. FieldRef_toString (rf doc, fst fe))) fs
            = filter (\<lambda>fe. fst fe = f) fs"
    proof (rule filter_cong[OF refl])
      fix fe assume "fe \<in> set fs"
      then have "CHR ''/'' \<notin> set (fst fe)" using assms(2) by auto
      then show "((\<lambda>k. \<exists>r. FieldRef_fromString k = Inr (r, f)) \<circ> (\<lambda>fe. FieldRef_toString (rf doc, fst fe))) fe
                   = (fst fe = f)"
        by (auto simp: fromString_toString)
    qed
    then show ?thesis by (simp add: filter_map filter_field[OF assms(1,3)])
  qed
  show ?thesis
    by (induction docs) (simp_all add: one)
qed


text \<open>
  C5, as the code has it. On a builder to which no document has been added yet, after the
  documents \<open>docs\<close>, of distinct references, have been added, the average field length that
  \<^verbatim>\<open>calculateAverageFieldLengths\<close> computes for a registered field \<open>f\<close> that does not name a
  member of \<^verbatim>\<open>Object.prototype\<close> is the sum, over all the added documents, of the number of
  terms of field \<open>f\<close>, divided by the number of all the added documents. A document lacking
  the field has no terms for it and counts in the denominator all the same.
\<close>

theorem averageFieldLength_over_added_documents:
  assumes "fieldLengths b = []"
    and "distinct (map fst (builder_fields b))"
    and "\<forall>f \<in> fst ` set (builder_fields b). CHR ''/'' \<notin> set f"
    and "distinct (map (\<lambda>doc. docRef_string (doc (builder_ref b))) docs)"
    and "docs \<noteq> []"
    and "(f, extractor) \<in> set (builder_fields b)"
    and "f \<notin> set object_prototype_members"
  shows "\<exists>avg. calculateAverageFieldLengths (foldl add b docs) = Inr avg \<and>
           get_property avg f =
             Own (Number ((\<Sum>doc\<leftarrow>docs. real (length (field_terms b doc (f, extractor))))
                          / real (length docs)))"
proof -
  let ?ref = "\<lambda>doc. docRef_string (doc (builder_ref b))"
  let ?len = "\<lambda>doc fe. real (length (field_terms b doc fe))"
  let ?FL = "concat (map (\<lambda>doc. map (\<lambda>fe. (FieldRef_toString (?ref doc, fst fe), ?len doc fe))
                                  (builder_fields b)) docs)"
  let ?keys = "concat (map (\<lambda>doc. map (\<lambda>fe. FieldRef_toString (?ref doc, fst fe))
                                  (builder_fields b)) docs)"
  let ?B = "foldl add b docs"
  have B: "?B = b\<lparr>documentCount := documentCount b + length docs, fieldLengths := ?FL\<rparr>"
    using foldl_add_spec[OF assms(2,3,4)] assms(1) by simp
  have keys: "map fst ?FL = ?keys"
    by (simp add: map_concat comp_def)
  have dist: "distinct (map fst ?FL)"
    unfolding keys by (rule keys_distinct[OF assms(2,3,4)])
  have wf: "\<forall>k \<in> set ?keys. \<exists>r f. FieldRef_fromString k = Inr (r, f)"
    using assms(3) by (auto simp: fromString_toString)
  have fkeys: "filter (\<lambda>k. \<exists>r. FieldRef_fromString k = Inr (r, f)) ?keys
                 = map (\<lambda>doc. FieldRef_toString (?ref doc, f)) docs"
    by (rule field_keys[OF assms(2,3,6)])
  have val: "own_or 0 ?FL (FieldRef_toString (?ref doc, f)) = ?len doc (f, extractor)"
    if "doc \<in> set docs" for doc
  proof -
    have "(FieldRef_toString (?ref doc, f), ?len doc (f, extractor)) \<in> set ?FL"
      using that assms(6) by force
    with dist have "map_of ?FL (FieldRef_toString (?ref doc, f)) = Some (?len doc (f, extractor))"
      by (rule map_of_is_SomeI)
    then show ?thesis by (simp add: own_or_def)
  qed
  have sum: "sum_list (map (own_or 0 ?FL) (map (\<lambda>doc. FieldRef_toString (?ref doc, f)) docs))
               = (\<Sum>doc\<leftarrow>docs. ?len doc (f, extractor))"
    unfolding map_map comp_def using val by (intro arg_cong[of _ _ sum_list] map_cong) simp_all
  have "\<exists>acc cnt. accumulate_fields ?FL ?keys ([], []) = Inr (acc, cnt) \<and>
          map_of acc f = Some (Number (\<Sum>doc\<leftarrow>docs. ?len doc (f, extractor))) \<and>
          map_of cnt f = Some (Number (real (length docs)))"
    using accumulate_fields_spec[OF assms(7) wf, of "[]" 0 0 "[]" ?FL] assms(5)
    unfolding fkeys sum by simp
  then obtain acc cnt where
    run: "accumulate_fields ?FL ?keys ([], []) = Inr (acc, cnt)"
    and acc: "map_of acc f = Some (Number (\<Sum>doc\<leftarrow>docs. ?len doc (f, extractor)))"
    and cnt: "map_of cnt f = Some (Number (real (length docs)))"
    by blast
  have names: "distinct (map fst (builder_fields b))" "f \<in> set (map fst (builder_fields b))"
    using assms(2,6) by force+
  have "get_property acc f = Own (Number (\<Sum>doc\<leftarrow>docs. ?len doc (f, extractor)))"
    "get_property cnt f = Own (Number (real (length docs)))"
    using acc cnt by (simp_all add: get_property_def)
  then have "divide_values (get_property acc f) (get_property cnt f)
               = Number ((\<Sum>doc\<leftarrow>docs. ?len doc (f, extractor)) / real (length docs))"
    using assms(5) by (simp add: divide_values_def)
  with divide_loop[OF names, of cnt acc]
  have "get_property
          (foldl (\<lambda>acc fieldName. update_property fieldName
                    (divide_values (get_property acc fieldName) (get_property cnt fieldName)) acc)
                 acc (map fst (builder_fields b))) f
        = Own (Number ((\<Sum>doc\<leftarrow>docs. ?len doc (f, extractor)) / real (length docs)))"
    by (simp add: get_property_def)
  then show ?thesis
    by (simp add: calculateAverageFieldLengths_def B keys run)
qed

lemma tokenizer_x_y: "length (tokenizer (Some ''x y'')) = 2"
  by (simp add: tokenizer_def is_separator_def char_toLowerCase_def)

lemma tokenizer_undefined: "tokenizer None = []"
  by (simp add: tokenizer_def)

theorem averageFieldLength_over_added_documents_witness:
  "''title'' \<notin> set object_prototype_members \<and>
   field new_Builder ''title'' None = Inr (new_Builder\<lparr>builder_fields := [(''title'', None)]\<rparr>) \<and>
   (\<exists>avg. calculateAverageFieldLengths
            (foldl add (new_Builder\<lparr>builder_fields := [(''title'', None)]\<rparr>)
               [map_of [(''id'', ''a''), (''title'', ''x y'')], map_of [(''id'', ''b'')]]) = Inr avg \<and>
          get_property avg ''title'' = Own (Number 1))"
  using averageFieldLength_over_added_documents
          [of "new_Builder\<lparr>builder_fields := [(''title'', None)]\<rparr>"
              "[map_of [(''id'', ''a''), (''title'', ''x y'')], map_of [(''id'', ''b'')]]" "''title''" None]
  by (simp add: new_Builder_def field_def object_prototype_members_def docRef_string_def
      field_terms_def pipeline_run_def tokenizer_x_y tokenizer_undefined)

text \<open>
  C5 as it is stated fails. The builder has the one field \<^verbatim>\<open>title\<close>; the documents are
  \<^verbatim>\<open>{id: 'a', title: 'x y'}\<close> and \<^verbatim>\<open>{id: 'b'}\<close>. One document has the field, with two terms, so
  the claim gives the average 2 / 1 = 2; the code computes 1, the document without the field
  counting in the denominator.
\<close>

theorem averageFieldLength_counts_document_without_field:
  "field new_Builder ''title'' None = Inr (new_Builder\<lparr>builder_fields := [(''title'', None)]\<rparr>) \<and>
   map_of [(''id'', ''a''), (''title'', ''x y'')] ''title'' = Some ''x y'' \<and>
   map_of [(''id'', ''b'')] ''title'' = None \<and>
   real (length (field_terms (new_Builder\<lparr>builder_fields := [(''title'', None)]\<rparr>)
                   (map_of [(''id'', ''a''), (''title'', ''x y'')]) (''title'', None))) / 1 = 2 \<and>
   calculateAverageFieldLengths
     (add (add (new_Builder\<lparr>builder_fields := [(''title'', None)]\<rparr>)
             (map_of [(''id'', ''a''), (''title'', ''x y'')]))
        (map_of [(''id'', ''b'')]))
     = Inr [(''title'', Number 1)]"
  by (simp add: new_Builder_def field_def add_def add_field_def docRef_string_def
      field_terms_def pipeline_run_def tokenizer_x_y tokenizer_undefined
      calculateAverageFieldLengths_def accumulate_field_def FieldRef_fromString_def
      FieldRef_toString_def or_zero_def plus_assign_def truthy_def get_property_def
      object_prototype_members_def own_or_def divide_values_def)

section \<open>\<^verbatim>\<open>search\<close> is \<^verbatim>\<open>query\<close> with the parser\<close>

text \<open>
  C9. For every index and every query string, \<^verbatim>\<open>search\<close> returns what \<^verbatim>\<open>query\<close> returns for
  the callback that parses the query string into the query with a \<^verbatim>\<open>QueryParser\<close>: the same
  results, the same error, or neither of them returns. This holds for every lexer, every first
  state of the parser and every way of computing the results from the clauses.
\<close>

theorem search_is_query_of_parse:
  "search lexer_run parseClause run_clauses index_fields this queryString =
     query run_clauses index_fields this
       (\<lambda>query. parse lexer_run parseClause (new_QueryParser queryString query))"
  by (simp add: search_def)

end
